theory Spec2Isabelle
  imports Main "HOL-Library.Word" "HOL-Library.Multiset"
begin

section \<open>Data model\<close>

text \<open>
  The classes \<open>VehicleType\<close> and \<open>VehicleMake\<close> of \<open>models/vehicleMake.js\<close>.
  Identifiers and names are the strings the constructors document. The property
  \<open>vehicleTypes\<close> of a make is optional, because \<open>_saveMakes\<close> deletes it from some
  objects; when present it holds an array, or \<open>undefined\<close> (what
  \<open>_extractVehicleTypeObjects\<close> returns for a document without a type list; the
  store keeps it as \<open>null\<close>, which the code cannot tell from \<open>undefined\<close>).
\<close>

record VehicleType =
  typeId :: string
  typeName :: string

datatype js_types = Undefined | Types "VehicleType list"

record VehicleMake =
  makeId :: string
  makeName :: string
  vehicleTypes :: "js_types option"

text \<open>A document of the collection \<open>vehicle_makes\<close>: the fields of a make and the
  \<open>_id\<close> the store gave it (absent once \<open>getAllMakes\<close> has deleted it).\<close>

record db_doc = VehicleMake +
  oid :: "nat option"

datatype error = NetworkError | ParseError | TypeError

text \<open>The constructors: a parameter that is \<open>undefined\<close> takes its default, the empty
  string; a new make maps the empty default array of types.\<close>

definition or_default :: "string option \<Rightarrow> string" where
  "or_default v = (case v of None \<Rightarrow> [] | Some s \<Rightarrow> s)"

definition new_VehicleType :: "string option \<Rightarrow> string option \<Rightarrow> VehicleType" where
  "new_VehicleType tid tname = \<lparr>typeId = or_default tid, typeName = or_default tname\<rparr>"

definition new_VehicleMake :: "string option \<Rightarrow> string option \<Rightarrow> VehicleMake" where
  "new_VehicleMake mid mname =
     \<lparr>makeId = or_default mid, makeName = or_default mname, vehicleTypes = Some (Types [])\<rparr>"

section \<open>The markup transformer\<close>

text \<open>
  What \<open>xml2js\<close> (with \<open>explicitArray: false\<close>) leaves at a repeated element: nothing,
  the single child as an object, or an array of children.
\<close>

datatype 'a children = Absent | Single 'a | Many "'a list"

record raw_type =
  VehicleTypeId :: "string option"
  VehicleTypeName :: "string option"

record raw_make =
  Make_ID :: "string option"
  Make_Name :: "string option"

text \<open>
  The parsed answer to \<open>GetVehicleTypesForMakeId\<close>, read through the optional chains
  of the source: \<open>Count\<close> is \<open>jsObject?.Response?.Count\<close> as the number that \<open>==\<close>
  compares (\<open>None\<close> when a link of the chain is missing), \<open>VehicleTypesForMakeIds\<close> is
  \<open>jsObject?.Response?.Results?.VehicleTypesForMakeIds\<close>.
\<close>

record types_response =
  Count :: "int option"
  VehicleTypesForMakeIds :: "raw_type children"

text \<open>\<open>_extractVehicleTypeObjects\<close>. With count 1 the properties are read from whatever
  stands at \<open>VehicleTypesForMakeIds\<close>: an array or a missing node has neither property, so
  both take their defaults. In the last branch \<open>?.map\<close> yields \<open>undefined\<close> on a missing
  node and raises a \<open>TypeError\<close> on a single object, which has no \<open>map\<close>.\<close>

definition extractVehicleTypeObjects :: "types_response \<Rightarrow> error + js_types" where
  "extractVehicleTypeObjects jsObject =
     (if Count jsObject = Some 0 then Inr (Types [])
      else if Count jsObject = Some 1 then
        (case VehicleTypesForMakeIds jsObject of
           Single onlyVehicleType \<Rightarrow>
             Inr (Types [new_VehicleType (VehicleTypeId onlyVehicleType)
                                        (VehicleTypeName onlyVehicleType)])
         | _ \<Rightarrow> Inr (Types [new_VehicleType None None]))
      else
        (case VehicleTypesForMakeIds jsObject of
           Absent \<Rightarrow> Inr Undefined
         | Single _ \<Rightarrow> Inl TypeError
         | Many vts \<Rightarrow>
             Inr (Types (map (\<lambda>vehicleType.
                    new_VehicleType (VehicleTypeId vehicleType) (VehicleTypeName vehicleType)) vts))))"

text \<open>\<open>_extractMakeObjects\<close>, on \<open>jsObject?.Results?.AllVehicleMakes\<close>: \<open>None\<close> is the
  \<open>undefined\<close> of a missing node.\<close>

definition extractMakeObjects :: "raw_make children \<Rightarrow> error + VehicleMake list option" where
  "extractMakeObjects node =
     (case node of
        Absent \<Rightarrow> Inr None
      | Single _ \<Rightarrow> Inl TypeError
      | Many ms \<Rightarrow> Inr (Some (map (\<lambda>make. new_VehicleMake (Make_ID make) (Make_Name make)) ms)))"

section \<open>Helpers\<close>

text \<open>\<open>arrayToMap\<close>: the finite map holds the entries that the loop writes into the
  object literal; a later item replaces an earlier one with the same key. The items are
  objects, so an item written under \<open>__proto__\<close> becomes the prototype of the object and is
  read back under that key as any other entry is. What a lookup finds under a key that
  was not written is \<open>found\<close> below.\<close>

fun arrayToMap_loop :: "'a list \<Rightarrow> ('a \<Rightarrow> string) \<Rightarrow> (string \<rightharpoonup> 'a) \<Rightarrow> (string \<rightharpoonup> 'a)" where
  "arrayToMap_loop [] key m = m"
| "arrayToMap_loop (item # items) key m = arrayToMap_loop items key (m(key item \<mapsto> item))"

definition arrayToMap :: "'a list \<Rightarrow> ('a \<Rightarrow> string) \<Rightarrow> (string \<rightharpoonup> 'a)" where
  "arrayToMap array key = arrayToMap_loop array key Map.empty"

text \<open>
  \<open>shuffle\<close>. \<open>Math.random()\<close> returns a double in \<open>[0, 1)\<close>: the \<open>n\<close>-th call is the
  fraction \<open>rnd n / 2^53\<close> of a 53-bit word. The product \<open>Math.random() * currentIndex\<close>
  is the double nearest to the exact product: \<open>round53\<close> rounds a natural number to 53
  significant bits, a tie to the even neighbour, and is applied to the product scaled
  by \<open>2^53\<close>. \<open>Math.floor\<close> takes the integer part of the rounded product.
\<close>

fun bit_length :: "nat \<Rightarrow> nat" where
  "bit_length n = (if n = 0 then 0 else Suc (bit_length (n div 2)))"

declare bit_length.simps [simp del]

definition round53 :: "nat \<Rightarrow> nat" where
  "round53 n =
     (if n < 2 ^ 53 then n
      else (let s = bit_length n - 53; q = n div 2 ^ s; r = n mod 2 ^ s
            in (if 2 ^ s < 2 * r \<or> (2 * r = 2 ^ s \<and> odd q) then q + 1 else q) * 2 ^ s))"

definition floor_random :: "53 word \<Rightarrow> nat \<Rightarrow> nat" where
  "floor_random r currentIndex = round53 (unat r * currentIndex) div 2 ^ 53"

fun shuffle_loop :: "(nat \<Rightarrow> 53 word) \<Rightarrow> nat \<Rightarrow> nat \<Rightarrow> 'a list \<Rightarrow> 'a list" where
  "shuffle_loop rnd n 0 array = array"
| "shuffle_loop rnd n (Suc k) array =
     (let randomIndex = floor_random (rnd n) (Suc k);
          currentIndex = k
      in shuffle_loop rnd (Suc n) currentIndex
           (array[currentIndex := array ! randomIndex, randomIndex := array ! currentIndex]))"

definition shuffle :: "(nat \<Rightarrow> 53 word) \<Rightarrow> 'a list \<Rightarrow> 'a list" where
  "shuffle rnd array = shuffle_loop rnd 0 (length array) array"

section \<open>The store\<close>

text \<open>
  The collection \<open>vehicle_makes\<close> is the list of its documents, in the order of
  insertion. The operations are those of the MongoDB driver that the facade calls, on
  the filter \<open>{makeId: k}\<close>: \<open>deleteOne\<close> removes the first document that matches;
  \<open>updateOne\<close> with \<open>$set\<close> and \<open>upsert\<close> writes the properties of the update into
  the first document that matches, and inserts a document of the filter and the update
  when none matches. A property that the update lacks is left as it is.
\<close>

type_synonym collection = "db_doc list"

fun delete_first :: "string \<Rightarrow> collection \<Rightarrow> collection" where
  "delete_first k [] = []"
| "delete_first k (d # ds) = (if makeId d = k then ds else d # delete_first k ds)"

definition set_fields :: "VehicleMake \<Rightarrow> db_doc \<Rightarrow> db_doc" where
  "set_fields document d =
     d\<lparr>makeId := makeId document,
       makeName := makeName document,
       vehicleTypes := (case vehicleTypes document of None \<Rightarrow> vehicleTypes d | Some v \<Rightarrow> Some v)\<rparr>"

fun update_first :: "string \<Rightarrow> VehicleMake \<Rightarrow> collection \<Rightarrow> collection" where
  "update_first k document [] = []"
| "update_first k document (d # ds) =
     (if makeId d = k then set_fields document d # ds else d # update_first k document ds)"

text \<open>The \<open>_id\<close> of an inserted document is taken to be a number that no document of
  the collection carries.\<close>

definition new_oid :: "collection \<Rightarrow> nat" where
  "new_oid coll = Suc (foldr max (map (\<lambda>d. case oid d of None \<Rightarrow> 0 | Some n \<Rightarrow> n) coll) 0)"

definition upsert :: "string \<Rightarrow> VehicleMake \<Rightarrow> collection \<Rightarrow> collection" where
  "upsert k document coll =
     (if k \<in> set (map makeId coll) then update_first k document coll
      else coll @ [\<lparr>makeId = makeId document, makeName = makeName document,
                    vehicleTypes = vehicleTypes document, oid = Some (new_oid coll)\<rparr>])"

text \<open>
  \<open>MongoDBFacade\<close>. Every method catches the error of its operation, logs it and
  returns a default; \<open>connect\<close> catches its own error too, after which every
  operation fails on the missing handle. Which operations of a run fail is a
  parameter: \<open>find\<close>, \<open>deleteOne\<close> and \<open>insertOrUpdate\<close> per key, and for
  \<open>insertOrUpdateMany\<close> the number of operations that the ordered \<open>bulkWrite\<close> applied
  before the error (\<open>None\<close> when it completes).
\<close>

record db_faults =
  find_fails :: bool
  deleteOne_fails :: "string \<Rightarrow> bool"
  bulkWrite_stops :: "nat option"
  insertOrUpdate_fails :: "string \<Rightarrow> bool"

definition no_faults :: db_faults where
  "no_faults = \<lparr>find_fails = False, deleteOne_fails = (\<lambda>_. False),
                 bulkWrite_stops = None, insertOrUpdate_fails = (\<lambda>_. False)\<rparr>"

definition find_coll :: "db_faults \<Rightarrow> collection \<Rightarrow> db_doc list" where
  "find_coll faults coll = (if find_fails faults then [] else coll)"

definition deleteOne :: "db_faults \<Rightarrow> string \<Rightarrow> collection \<Rightarrow> collection" where
  "deleteOne faults k coll = (if deleteOne_fails faults k then coll else delete_first k coll)"

definition insertOrUpdate :: "db_faults \<Rightarrow> string \<Rightarrow> VehicleMake \<Rightarrow> collection \<Rightarrow> collection" where
  "insertOrUpdate faults k document coll =
     (if insertOrUpdate_fails faults k then coll else upsert k document coll)"

fun bulkWrite :: "VehicleMake list \<Rightarrow> collection \<Rightarrow> collection" where
  "bulkWrite [] coll = coll"
| "bulkWrite (document # documents) coll =
     bulkWrite documents (upsert (makeId document) document coll)"

text \<open>\<open>insertOrUpdateMany\<close> returns the documents, or the empty array after an error.\<close>

definition insertOrUpdateMany ::
  "db_faults \<Rightarrow> VehicleMake list \<Rightarrow> collection \<Rightarrow> VehicleMake list \<times> collection" where
  "insertOrUpdateMany faults documents coll =
     (case bulkWrite_stops faults of
        None \<Rightarrow> (documents, bulkWrite documents coll)
      | Some n \<Rightarrow> ([], bulkWrite (take n documents) coll))"

section \<open>The reconciler\<close>

text \<open>The two tests of \<open>_saveMakes\<close> on the lengths: \<open>?.length > 0\<close> and
  \<open>?.length === 0\<close> are both false when the property is missing or not an array. What
  the stored map inherits under a key it does not hold has no \<open>vehicleTypes\<close>, so the
  first test is false there as well.\<close>

definition has_types :: "'a VehicleMake_scheme option \<Rightarrow> bool" where
  "has_types stored =
     (case stored of
        Some m \<Rightarrow> (case vehicleTypes m of Some (Types ts) \<Rightarrow> 0 < length ts | _ \<Rightarrow> False)
      | None \<Rightarrow> False)"

definition no_types :: "VehicleMake \<Rightarrow> bool" where
  "no_types mk = (case vehicleTypes mk of Some (Types ts) \<Rightarrow> length ts = 0 | _ \<Rightarrow> False)"

text \<open>
  The condition \<open>remoteMakesMap?.[k]\<close>. The map is an object literal, so a key that the
  loop did not write is looked up along the prototype chain: the property names of
  \<open>Object.prototype\<close> are found there, all with a function or an object as value. When an
  item was written under \<open>__proto__\<close>, that make stands first in the chain and its own
  properties are found under their names; a string is a true condition unless it is
  empty, an array always, \<open>undefined\<close> never.
\<close>

definition Object_prototype :: "string list" where
  "Object_prototype =
     [''constructor'', ''__defineGetter__'', ''__defineSetter__'', ''hasOwnProperty'',
      ''__lookupGetter__'', ''__lookupSetter__'', ''isPrototypeOf'', ''propertyIsEnumerable'',
      ''toString'', ''valueOf'', ''__proto__'', ''toLocaleString'']"

definition truthy_property :: "VehicleMake \<Rightarrow> string \<Rightarrow> bool" where
  "truthy_property item k =
     (k = ''makeId'' \<and> makeId item \<noteq> []
      \<or> k = ''makeName'' \<and> makeName item \<noteq> []
      \<or> k = ''vehicleTypes'' \<and> (case vehicleTypes item of Some (Types ts) \<Rightarrow> True | _ \<Rightarrow> False))"

definition inherited :: "(string \<rightharpoonup> VehicleMake) \<Rightarrow> string \<Rightarrow> bool" where
  "inherited m k =
     (k \<in> set Object_prototype
      \<or> (case m ''__proto__'' of Some item \<Rightarrow> truthy_property item k | None \<Rightarrow> False))"

definition found :: "(string \<rightharpoonup> VehicleMake) \<Rightarrow> string \<Rightarrow> bool" where
  "found m k = (case m k of Some item \<Rightarrow> True | None \<Rightarrow> inherited m k)"

text \<open>The deletions: for every document that \<open>find\<close> returned and under whose key
  nothing is found in the remote map, one \<open>deleteOne\<close>.\<close>

fun delete_old :: "db_faults \<Rightarrow> (string \<rightharpoonup> VehicleMake) \<Rightarrow> db_doc list \<Rightarrow> collection \<Rightarrow> collection" where
  "delete_old faults remoteMakesMap [] coll = coll"
| "delete_old faults remoteMakesMap (mk # mks) coll =
     delete_old faults remoteMakesMap mks
       (if \<not> found remoteMakesMap (makeId mk) then deleteOne faults (makeId mk) coll else coll)"

text \<open>\<open>makesToSave\<close>: the remote makes, \<open>vehicleTypes\<close> deleted from those that would
  write an empty array over stored types. The objects of \<open>remoteMakes\<close> themselves are
  changed, so this is also the array the caller holds afterwards.\<close>

definition makesToSave :: "(string \<rightharpoonup> db_doc) \<Rightarrow> VehicleMake list \<Rightarrow> VehicleMake list" where
  "makesToSave dbMakesMap remoteMakes =
     map (\<lambda>make. if has_types (dbMakesMap (makeId make)) \<and> no_types make
                  then make\<lparr>vehicleTypes := None\<rparr> else make) remoteMakes"

record saved =
  saved_result :: "VehicleMake list"
  saved_makes :: "VehicleMake list"
  saved_db :: collection

text \<open>\<open>_saveMakes\<close>: what \<open>insertOrUpdateMany\<close> returned, the array of remote makes
  as the call leaves it, and the collection. An \<open>undefined\<close> argument raises in \<open>arrayToMap\<close>, after the read
  and before any write.\<close>

definition saveMakes :: "db_faults \<Rightarrow> VehicleMake list option \<Rightarrow> collection \<Rightarrow> error + saved" where
  "saveMakes faults remoteMakes coll =
     (case remoteMakes of
        None \<Rightarrow> Inl TypeError
      | Some remote \<Rightarrow>
          (let dbMakes = find_coll faults coll;
               remoteMakesMap = arrayToMap remote makeId;
               dbMakesMap = arrayToMap dbMakes makeId;
               coll1 = delete_old faults remoteMakesMap dbMakes coll;
               toSave = makesToSave dbMakesMap remote;
               (res, coll2) = insertOrUpdateMany faults toSave coll1
           in Inr \<lparr>saved_result = res, saved_makes = toSave, saved_db = coll2\<rparr>))"

text \<open>\<open>_saveVehicleTypes\<close> and \<open>getAllMakes\<close>.\<close>

definition saveVehicleTypes :: "db_faults \<Rightarrow> VehicleMake \<Rightarrow> collection \<Rightarrow> collection" where
  "saveVehicleTypes faults mk coll = insertOrUpdate faults (makeId mk) mk coll"

definition getAllMakes :: "db_faults \<Rightarrow> collection \<Rightarrow> db_doc list" where
  "getAllMakes faults coll = map (\<lambda>d. d\<lparr>oid := None\<rparr>) (find_coll faults coll)"

section \<open>The type loader\<close>

text \<open>
  The remote source, as one run sees it: each request (\<open>axios.get\<close> and \<open>_xml2Json\<close>)
  fails or gives the parsed document; for the list of makes, the node at
  \<open>Response.Results.AllVehicleMakes\<close>.
\<close>

record remote =
  makes_response :: "error + raw_make children"
  types_responses :: "string \<Rightarrow> error + types_response"

definition CONCURRENT_REQUESTS :: nat where "CONCURRENT_REQUESTS = 5"
definition SLEEP_SECONDS :: nat where "SLEEP_SECONDS = 1"
definition TEST_REQUESTS :: int where "TEST_REQUESTS = - 1"

definition readVehicleTypesFromAPI :: "remote \<Rightarrow> string \<Rightarrow> error + js_types" where
  "readVehicleTypesFromAPI src k =
     (case types_responses src k of
        Inl e \<Rightarrow> Inl e
      | Inr jsonResponse \<Rightarrow> extractVehicleTypeObjects jsonResponse)"

definition loadAllMakes :: "remote \<Rightarrow> error + VehicleMake list option" where
  "loadAllMakes src =
     (case makes_response src of
        Inl e \<Rightarrow> Inl e
      | Inr node \<Rightarrow> extractMakeObjects node)"

text \<open>
  The closure \<open>readAndSave\<close> for the make with key \<open>k\<close>, from its request to its end, on
  the map \<open>makesMap\<close> and the collection. An error of the request or of the extraction
  is caught and logged; nothing is written then. The store facade raises nothing. Every
  make of the loop is a key of \<open>makesMap\<close>, so the spread of a missing entry
  does not occur; the model leaves the state as it is there.
\<close>

definition readAndSave ::
  "remote \<Rightarrow> db_faults \<Rightarrow> string \<Rightarrow> (string \<rightharpoonup> VehicleMake) \<times> collection
     \<Rightarrow> (string \<rightharpoonup> VehicleMake) \<times> collection" where
  "readAndSave src faults k st =
     (case readVehicleTypesFromAPI src k of
        Inl e \<Rightarrow> st
      | Inr types \<Rightarrow>
          (case fst st k of
             None \<Rightarrow> st
           | Some entry \<Rightarrow>
               (let updatedMake = entry\<lparr>vehicleTypes := Some types\<rparr>
                in ((fst st)(k \<mapsto> updatedMake), saveVehicleTypes faults updatedMake (snd st)))))"

text \<open>
  The loop of \<open>_loadAndSaveVehicleTypes\<close>. JavaScript runs the loop body without
  interruption up to an \<open>await\<close>: a call of \<open>readAndSave()\<close> sends its request and is
  then pending; pending operations make progress only while the loop waits in
  \<open>Promise.all\<close>, which returns when all of them have ended. The state holds the keys
  of the pending operations (\<open>promises\<close>), the counter \<open>i\<close>, and a trace of what the
  loop did: the start of an operation, the wait for all pending ones, the sleep with
  the argument of \<open>setTimeout\<close>, in milliseconds. Operations that are pending together
  end in the order of their start here; they write different keys, or the same
  value under the same key.
\<close>

datatype event = Start string | AwaitAll | Sleep nat

record loader =
  ld_makesMap :: "string \<rightharpoonup> VehicleMake"
  ld_db :: collection
  ld_promises :: "string list"
  ld_i :: int
  ld_trace :: "event list"

definition settle :: "remote \<Rightarrow> db_faults \<Rightarrow> loader \<Rightarrow> loader" where
  "settle src faults st =
     (let done = foldl (\<lambda>s k. readAndSave src faults k s) (ld_makesMap st, ld_db st) (ld_promises st)
      in st\<lparr>ld_makesMap := fst done, ld_db := snd done, ld_promises := []\<rparr>)"

fun types_loop :: "remote \<Rightarrow> db_faults \<Rightarrow> VehicleMake list \<Rightarrow> loader \<Rightarrow> loader" where
  "types_loop src faults [] st = st"
| "types_loop src faults (mk # rest) st =
     (let st1 = st\<lparr>ld_promises := ld_promises st @ [makeId mk],
                   ld_trace := ld_trace st @ [Start (makeId mk)]\<rparr>;
          st2 = (if CONCURRENT_REQUESTS < length (ld_promises st1)
                 then (settle src faults st1)
                        \<lparr>ld_trace := ld_trace st1 @ [AwaitAll, Sleep SLEEP_SECONDS]\<rparr>
                 else st1);
          st3 = st2\<lparr>ld_i := ld_i st2 + 1\<rparr>
      in if ld_i st2 = TEST_REQUESTS then st3 else types_loop src faults rest st3)"

text \<open>
  \<open>_loadAndSaveVehicleTypes\<close> returns the values of \<open>makesMap\<close> as they are when the loop
  ends (\<open>mapToArray\<close>; the model gives the map, of which the array lists the values of
  all keys but \<open>__proto__\<close>). The operations still pending at that point are not
  awaited: the result holds the collection as it is at the return, in which none of
  their writes is, and the keys of the pending operations. \<open>settled_db\<close> is the
  collection that these operations leave when they end, after the return.
\<close>

record loaded =
  loaded_makes :: "string \<rightharpoonup> VehicleMake"
  loaded_db :: collection
  loaded_pending :: "string list"
  loaded_trace :: "event list"

definition loadAndSaveVehicleTypes ::
  "remote \<Rightarrow> db_faults \<Rightarrow> (nat \<Rightarrow> 53 word) \<Rightarrow> VehicleMake list \<Rightarrow> collection \<Rightarrow> loaded" where
  "loadAndSaveVehicleTypes src faults rnd allMakes coll =
     (let makesMap = arrayToMap allMakes makeId;
          st = types_loop src faults (shuffle rnd allMakes)
                 \<lparr>ld_makesMap = makesMap, ld_db = coll, ld_promises = [], ld_i = 0, ld_trace = []\<rparr>
      in \<lparr>loaded_makes = ld_makesMap st,
          loaded_db = ld_db st,
          loaded_pending = ld_promises st,
          loaded_trace = ld_trace st\<rparr>)"

definition settled_db :: "remote \<Rightarrow> db_faults \<Rightarrow> loaded \<Rightarrow> collection" where
  "settled_db src faults l =
     snd (foldl (\<lambda>s k. readAndSave src faults k s) (loaded_makes l, loaded_db l) (loaded_pending l))"

section \<open>The orchestrator\<close>

text \<open>\<open>startLoading\<close>: the value the run returns or the error it raises, the
  collection as it is when the run returns, the keys of the operations of the type
  loader that are pending then, and the trace of the type loader. An error of
  \<open>_loadAllMakes\<close> or of \<open>_saveMakes\<close> ends the run. \<open>run_settled\<close> is the collection once
  the pending operations have ended.\<close>

record run =
  run_result :: "error + (string \<rightharpoonup> VehicleMake)"
  run_db :: collection
  run_pending :: "string list"
  run_trace :: "event list"

definition startLoading :: "remote \<Rightarrow> db_faults \<Rightarrow> (nat \<Rightarrow> 53 word) \<Rightarrow> collection \<Rightarrow> run" where
  "startLoading src faults rnd coll =
     (case loadAllMakes src of
        Inl e \<Rightarrow> \<lparr>run_result = Inl e, run_db = coll, run_pending = [], run_trace = []\<rparr>
      | Inr allMakes \<Rightarrow>
          (case saveMakes faults allMakes coll of
             Inl e \<Rightarrow> \<lparr>run_result = Inl e, run_db = coll, run_pending = [], run_trace = []\<rparr>
           | Inr sv \<Rightarrow>
               (let l = loadAndSaveVehicleTypes src faults rnd (saved_makes sv) (saved_db sv)
                in \<lparr>run_result = Inr (loaded_makes l), run_db = loaded_db l,
                    run_pending = loaded_pending l, run_trace = loaded_trace l\<rparr>)))"

definition run_settled :: "remote \<Rightarrow> db_faults \<Rightarrow> run \<Rightarrow> collection" where
  "run_settled src faults r =
     (case run_result r of
        Inl e \<Rightarrow> run_db r
      | Inr makesMap \<Rightarrow>
          snd (foldl (\<lambda>s k. readAndSave src faults k s) (makesMap, run_db r) (run_pending r)))"

text \<open>
  The example of the specification: the source lists the makes A, B and C; the store
  holds A with the type T1, B with no type and D with the type T2; the types of B are
  T3, those of C are T4 and T5, and the request for the types of A fails.
\<close>

definition example_remote :: remote where
  "example_remote =
     \<lparr>makes_response = Inr (Many [\<lparr>Make_ID = Some ''A'', Make_Name = Some ''Make A''\<rparr>,
                                     \<lparr>Make_ID = Some ''B'', Make_Name = Some ''Make B''\<rparr>,
                                     \<lparr>Make_ID = Some ''C'', Make_Name = Some ''Make C''\<rparr>]),
      types_responses = (\<lambda>k.
        if k = ''B'' then
          Inr \<lparr>Count = Some 1,
               VehicleTypesForMakeIds =
                 Single \<lparr>VehicleTypeId = Some ''T3'', VehicleTypeName = Some ''Truck''\<rparr>\<rparr>
        else if k = ''C'' then
          Inr \<lparr>Count = Some 2,
               VehicleTypesForMakeIds =
                 Many [\<lparr>VehicleTypeId = Some ''T4'', VehicleTypeName = Some ''Bus''\<rparr>,
                       \<lparr>VehicleTypeId = Some ''T5'', VehicleTypeName = Some ''Trailer''\<rparr>]\<rparr>
        else Inl NetworkError)\<rparr>"

definition example_makes :: "VehicleMake list" where
  "example_makes =
     [new_VehicleMake (Some ''A'') (Some ''Make A''),
      new_VehicleMake (Some ''B'') (Some ''Make B''),
      new_VehicleMake (Some ''C'') (Some ''Make C'')]"

definition example_store :: collection where
  "example_store =
     [\<lparr>makeId = ''A'', makeName = ''Make A'',
       vehicleTypes = Some (Types [\<lparr>typeId = ''T1'', typeName = ''Car''\<rparr>]), oid = Some 1\<rparr>,
      \<lparr>makeId = ''B'', makeName = ''Make B'', vehicleTypes = Some (Types []), oid = Some 2\<rparr>,
      \<lparr>makeId = ''D'', makeName = ''Make D'',
       vehicleTypes = Some (Types [\<lparr>typeId = ''T2'', typeName = ''Moped''\<rparr>]), oid = Some 3\<rparr>]"

text \<open>
  A second source, for runs in which the loader waits: it lists six makes, each with
  the one type T1, and the request for the types of make 3 fails.
\<close>

definition six_makes :: "VehicleMake list" where
  "six_makes =
     [new_VehicleMake (Some ''1'') (Some ''A''), new_VehicleMake (Some ''2'') (Some ''B''),
      new_VehicleMake (Some ''3'') (Some ''C''), new_VehicleMake (Some ''4'') (Some ''D''),
      new_VehicleMake (Some ''5'') (Some ''E''), new_VehicleMake (Some ''6'') (Some ''F'')]"

definition six_remote :: remote where
  "six_remote =
     \<lparr>makes_response = Inr (Many [\<lparr>Make_ID = Some ''1'', Make_Name = Some ''A''\<rparr>,
                                     \<lparr>Make_ID = Some ''2'', Make_Name = Some ''B''\<rparr>,
                                     \<lparr>Make_ID = Some ''3'', Make_Name = Some ''C''\<rparr>,
                                     \<lparr>Make_ID = Some ''4'', Make_Name = Some ''D''\<rparr>,
                                     \<lparr>Make_ID = Some ''5'', Make_Name = Some ''E''\<rparr>,
                                     \<lparr>Make_ID = Some ''6'', Make_Name = Some ''F''\<rparr>]),
      types_responses = (\<lambda>k.
        if k = ''3'' then Inl NetworkError
        else Inr \<lparr>Count = Some 1,
                  VehicleTypesForMakeIds =
                    Single \<lparr>VehicleTypeId = Some ''T1'', VehicleTypeName = Some ''Car''\<rparr>\<rparr>)\<rparr>"




abbreviation example_run :: run where
  "example_run \<equiv> startLoading example_remote no_faults (\<lambda>_. 0) example_store"

text \<open>Two stores of the first example: A with T1 and B and C without types; A with T1,
  B with T3 and C with T4 and T5.\<close>

abbreviation example_shells :: collection where
  "example_shells \<equiv>
     [\<lparr>makeId = ''A'', makeName = ''Make A'',
       vehicleTypes = Some (Types [\<lparr>typeId = ''T1'', typeName = ''Car''\<rparr>]), oid = Some 1\<rparr>,
      \<lparr>makeId = ''B'', makeName = ''Make B'', vehicleTypes = Some (Types []), oid = Some 2\<rparr>,
      \<lparr>makeId = ''C'', makeName = ''Make C'', vehicleTypes = Some (Types []), oid = Some 3\<rparr>]"

abbreviation example_typed :: collection where
  "example_typed \<equiv>
     [\<lparr>makeId = ''A'', makeName = ''Make A'',
       vehicleTypes = Some (Types [\<lparr>typeId = ''T1'', typeName = ''Car''\<rparr>]), oid = Some 1\<rparr>,
      \<lparr>makeId = ''B'', makeName = ''Make B'',
       vehicleTypes = Some (Types [\<lparr>typeId = ''T3'', typeName = ''Truck''\<rparr>]), oid = Some 2\<rparr>,
      \<lparr>makeId = ''C'', makeName = ''Make C'',
       vehicleTypes = Some (Types [\<lparr>typeId = ''T4'', typeName = ''Bus''\<rparr>,
                                   \<lparr>typeId = ''T5'', typeName = ''Trailer''\<rparr>]),
       oid = Some 3\<rparr>]"

text \<open>Readings of a trace: the keys of the operations started, in order; the
  number of operations in flight after each event, and its peak.\<close>

fun started :: "event list \<Rightarrow> string list" where
  "started [] = []"
| "started (Start k # es) = k # started es"
| "started (AwaitAll # es) = started es"
| "started (Sleep ms # es) = started es"

fun in_flight_step :: "nat \<Rightarrow> event \<Rightarrow> nat" where
  "in_flight_step n (Start k) = Suc n"
| "in_flight_step n AwaitAll = 0"
| "in_flight_step n (Sleep ms) = n"

fun peak_in_flight :: "nat \<Rightarrow> event list \<Rightarrow> nat" where
  "peak_in_flight n [] = n"
| "peak_in_flight n (e # es) = max n (peak_in_flight (in_flight_step n e) es)"

section \<open>Lemmas on the helpers\<close>

lemma bit_length_bounds: "0 < n \<Longrightarrow> 2 ^ (bit_length n - 1) \<le> n \<and> n < 2 ^ bit_length n"
proof (induction n rule: bit_length.induct)
  case (1 n)
  show ?case
  proof (cases "n div 2 = 0")
    case True
    then have "n = 1" using 1(2) by (cases n) auto
    then show ?thesis by (simp add: bit_length.simps)
  next
    case False
    then have pos: "0 < n div 2" by simp
    have n0: "n \<noteq> 0" using 1(2) by simp
    from 1(1) [OF n0 pos] have lo: "2 ^ (bit_length (n div 2) - 1) \<le> n div 2"
      and hi: "n div 2 < 2 ^ bit_length (n div 2)" by simp_all
    have bl: "bit_length n = Suc (bit_length (n div 2))" using n0 by (simp add: bit_length.simps)
    have b0: "0 < bit_length (n div 2)" using pos by (simp add: bit_length.simps)
    have "2 ^ (bit_length n - 1) = 2 * 2 ^ (bit_length (n div 2) - 1)"
      using bl b0 by (cases "bit_length (n div 2)") simp_all
    also have "\<dots> \<le> 2 * (n div 2)" using lo by simp
    also have "\<dots> \<le> n" by simp
    finally have 1: "2 ^ (bit_length n - 1) \<le> n" .
    have "n < 2 * (n div 2) + 2" by presburger
    also have "\<dots> \<le> 2 * 2 ^ bit_length (n div 2)" using hi by simp
    finally have "n < 2 ^ bit_length n" using bl by simp
    with 1 show ?thesis by simp
  qed
qed

lemma round53_less:
  assumes c: "0 < c" and n: "n + c \<le> c * 2 ^ 53"
  shows "round53 n < c * 2 ^ 53"
proof (cases "n < 2 ^ 53")
  case True
  then have "round53 n = n" by (simp add: round53_def)
  then show ?thesis using c n by simp
next
  case False
  define s where "s = bit_length n - 53"
  define q where "q = n div 2 ^ s"
  define r where "r = n mod 2 ^ s"
  have npos: "0 < n" using False by (cases n) simp_all
  have lo: "2 ^ (bit_length n - 1) \<le> n" and hi: "n < 2 ^ bit_length n"
    using bit_length_bounds [OF npos] by simp_all
  have bl: "53 < bit_length n"
  proof (rule ccontr)
    assume "\<not> 53 < bit_length n"
    then have "bit_length n \<le> 53" by simp
    then have "(2::nat) ^ bit_length n \<le> 2 ^ 53" by (rule power_increasing) simp
    then show False using False hi by linarith
  qed
  then have e: "bit_length n - 1 = 52 + s" and s1: "s = Suc (s - 1)" by (simp_all add: s_def)
  have lo': "(2::nat) ^ 52 * 2 ^ s \<le> n" using lo e by (simp add: power_add)
  have nq: "n = q * 2 ^ s + r"
    unfolding q_def r_def by (rule div_mult_mod_eq [symmetric])
  have r: "round53 n = (if 2 ^ s < 2 * r \<or> (2 * r = 2 ^ s \<and> odd q) then q + 1 else q) * 2 ^ s"
    using False by (simp add: round53_def Let_def s_def q_def r_def)
  have lt: "n < c * 2 ^ 53" using c n by simp
  show ?thesis
  proof (cases "2 ^ s < 2 * r \<or> (2 * r = 2 ^ s \<and> odd q)")
    case False
    then have "round53 n = q * 2 ^ s" using r by simp
    then have "round53 n \<le> n" using nq by simp
    then show ?thesis using lt by simp
  next
    case True
    then have half: "2 ^ s \<le> 2 * r" by auto
    have "round53 n = (q + 1) * 2 ^ s" using r True by simp
    then have rn: "round53 n + r = n + 2 ^ s" using nq by (simp add: algebra_simps)
    have "(2::nat) ^ s = 2 * 2 ^ (s - 1)" using s1 by (metis power_Suc)
    then have h2: "2 ^ s \<le> r + 2 ^ (s - 1)" using half by simp
    have "(2::nat) ^ 53 * 2 ^ (s - 1) = 2 ^ 52 * 2 ^ s"
      using \<open>(2::nat) ^ s = 2 * 2 ^ (s - 1)\<close> by simp
    then have "(2::nat) ^ 53 * 2 ^ (s - 1) < c * 2 ^ 53" using lo' lt by simp
    then have "2 ^ (s - 1) * (2::nat) ^ 53 < c * 2 ^ 53" by (simp add: mult.commute)
    then have cs: "2 ^ (s - 1) < c" by simp
    have "round53 n + r \<le> n + r + 2 ^ (s - 1)" using rn h2 by simp
    then have "round53 n \<le> n + 2 ^ (s - 1)" by simp
    also have "\<dots> < n + c" using cs by simp
    finally show ?thesis using n by simp
  qed
qed

lemma floor_random_less: "0 < c \<Longrightarrow> floor_random r c < c"
proof -
  assume c: "0 < c"
  have "unat r < 2 ^ 53" using unsigned_less [of r] by simp
  then have "unat r + 1 \<le> 2 ^ 53" by simp
  then have "(unat r + 1) * c \<le> 2 ^ 53 * c" by (rule mult_le_mono1)
  then have "unat r * c + c \<le> c * 2 ^ 53" by (simp add: algebra_simps)
  from round53_less [OF c this] have "round53 (unat r * c) < c * 2 ^ 53" .
  then show ?thesis
    unfolding floor_random_def by (simp add: less_mult_imp_div_less)
qed

lemma mset_shuffle_loop:
  "k \<le> length array \<Longrightarrow> mset (shuffle_loop rnd n k array) = mset array"
proof (induction k arbitrary: n array)
  case 0
  then show ?case by simp
next
  case (Suc k)
  let ?j = "floor_random (rnd n) (Suc k)"
  have j: "?j < length array" using floor_random_less [of "Suc k" "rnd n"] Suc.prems by simp
  have k: "k < length array" using Suc.prems by simp
  have "mset (array[k := array ! ?j, ?j := array ! k]) = mset array"
    using mset_swap [OF j k] by simp
  moreover have "k \<le> length (array[k := array ! ?j, ?j := array ! k])" using k by simp
  ultimately show ?case using Suc.IH by (simp add: Let_def)
qed

lemma mset_shuffle: "mset (shuffle rnd array) = mset array"
  by (simp add: shuffle_def mset_shuffle_loop)

lemma length_shuffle: "length (shuffle rnd array) = length array"
  using mset_shuffle [of rnd array] by (metis size_mset)

lemma set_shuffle: "set (shuffle rnd array) = set array"
  using mset_shuffle [of rnd array] by (metis set_mset_mset)

lemma arrayToMap_loop_None:
  "arrayToMap_loop xs key m k = None \<longleftrightarrow> k \<notin> key ` set xs \<and> m k = None"
  by (induction xs arbitrary: m) auto

lemma arrayToMap_None: "arrayToMap xs key k = None \<longleftrightarrow> k \<notin> key ` set xs"
  by (simp add: arrayToMap_def arrayToMap_loop_None)

lemma arrayToMap_loop_Some:
  "arrayToMap_loop xs key m k = Some v \<Longrightarrow> (v \<in> set xs \<and> key v = k) \<or> m k = Some v"
proof (induction xs arbitrary: m)
  case Nil
  then show ?case by simp
next
  case (Cons a xs)
  from Cons.prems have "arrayToMap_loop xs key (m(key a \<mapsto> a)) k = Some v" by simp
  from Cons.IH [OF this] show ?case by (auto split: if_splits)
qed

lemma arrayToMap_Some: "arrayToMap xs key k = Some v \<Longrightarrow> v \<in> set xs \<and> key v = k"
  using arrayToMap_loop_Some [of xs key Map.empty k v] by (simp add: arrayToMap_def)

section \<open>Lemmas on the store\<close>

lemma makeId_set_fields: "makeId (set_fields document d) = makeId document"
  by (simp add: set_fields_def)

lemma ids_delete_first_subset: "set (delete_first k c) \<subseteq> set c"
  by (induction c) auto

lemma distinct_delete_first:
  "distinct (map makeId c) \<Longrightarrow> distinct (map makeId (delete_first k c))"
proof (induction c)
  case Nil
  then show ?case by simp
next
  case (Cons d ds)
  have "makeId ` set (delete_first k ds) \<subseteq> makeId ` set ds"
    using ids_delete_first_subset [of k ds] by blast
  with Cons show ?case by auto
qed

lemma ids_update_first:
  "makeId document = k \<Longrightarrow> map makeId (update_first k document c) = map makeId c"
  by (induction c) (auto simp: makeId_set_fields)

lemma ids_upsert:
  "makeId document = k \<Longrightarrow>
   map makeId (upsert k document c)
     = (if k \<in> set (map makeId c) then map makeId c else map makeId c @ [k])"
  by (simp add: upsert_def ids_update_first)

lemma distinct_upsert:
  "makeId document = k \<Longrightarrow> distinct (map makeId c) \<Longrightarrow> distinct (map makeId (upsert k document c))"
  by (simp add: ids_upsert)

lemma distinct_bulkWrite:
  "distinct (map makeId c) \<Longrightarrow> distinct (map makeId (bulkWrite documents c))"
  by (induction documents arbitrary: c) (simp_all add: distinct_upsert)

lemma distinct_deleteOne:
  "distinct (map makeId c) \<Longrightarrow> distinct (map makeId (deleteOne faults k c))"
  by (simp add: deleteOne_def distinct_delete_first)

lemma distinct_delete_old:
  "distinct (map makeId c) \<Longrightarrow> distinct (map makeId (delete_old faults rm ds c))"
  by (induction ds arbitrary: c) (simp_all add: distinct_deleteOne)

lemma distinct_insertOrUpdateMany:
  "distinct (map makeId c) \<Longrightarrow> distinct (map makeId (snd (insertOrUpdateMany faults documents c)))"
  by (simp add: insertOrUpdateMany_def distinct_bulkWrite split: option.splits)

lemma distinct_saveMakes:
  "distinct (map makeId c) \<Longrightarrow> saveMakes faults remoteMakes c = Inr sv \<Longrightarrow>
   distinct (map makeId (saved_db sv))"
proof -
  assume d: "distinct (map makeId c)" and s: "saveMakes faults remoteMakes c = Inr sv"
  from s obtain remote where r: "remoteMakes = Some remote"
    by (cases remoteMakes) (simp_all add: saveMakes_def)
  let ?dbMakes = "find_coll faults c"
  have "saved_db sv = snd (insertOrUpdateMany faults (makesToSave (arrayToMap ?dbMakes makeId) remote)
          (delete_old faults (arrayToMap remote makeId) ?dbMakes c))"
    using s r by (auto simp: saveMakes_def Let_def split: prod.splits)
  then show ?thesis
    using distinct_insertOrUpdateMany [OF distinct_delete_old [OF d]] by simp
qed

lemma distinct_saveVehicleTypes:
  "distinct (map makeId c) \<Longrightarrow> distinct (map makeId (saveVehicleTypes faults mk c))"
  by (simp add: saveVehicleTypes_def insertOrUpdate_def distinct_upsert)

lemma distinct_readAndSave:
  "distinct (map makeId (snd st)) \<Longrightarrow> distinct (map makeId (snd (readAndSave src faults k st)))"
  by (simp add: readAndSave_def Let_def distinct_saveVehicleTypes split: sum.splits option.splits)

lemma distinct_run_ops:
  "distinct (map makeId (snd st)) \<Longrightarrow>
   distinct (map makeId (snd (foldl (\<lambda>s k. readAndSave src faults k s) st ks)))"
  by (induction ks arbitrary: st) (simp_all add: distinct_readAndSave)

lemma delete_first_append:
  "k \<notin> makeId ` set kept \<Longrightarrow> delete_first k (kept @ rest) = kept @ delete_first k rest"
  by (induction kept) auto

lemma delete_old_filter:
  "\<forall>k. \<not> deleteOne_fails faults k \<Longrightarrow> \<forall>d \<in> set kept. found rm (makeId d) \<Longrightarrow>
   delete_old faults rm rest (kept @ rest) = kept @ [d \<leftarrow> rest. found rm (makeId d)]"
proof (induction rest arbitrary: kept)
  case Nil
  then show ?case by simp
next
  case (Cons d rest)
  show ?case
  proof (cases "found rm (makeId d)")
    case False
    then have "makeId d \<notin> makeId ` set kept" using Cons.prems(2) by force
    then have "deleteOne faults (makeId d) (kept @ d # rest) = kept @ rest"
      using Cons.prems(1) by (simp add: deleteOne_def delete_first_append)
    then show ?thesis using False Cons.IH [OF Cons.prems] by simp
  next
    case True
    then have "\<forall>x \<in> set (kept @ [d]). found rm (makeId x)" using Cons.prems(2) by simp
    from Cons.IH [OF Cons.prems(1) this]
    have "delete_old faults rm rest (kept @ d # rest)
            = kept @ d # [x \<leftarrow> rest. found rm (makeId x)]" by simp
    moreover have "delete_old faults rm (d # rest) (kept @ d # rest)
            = delete_old faults rm rest (kept @ d # rest)" using True by simp
    moreover have "[x \<leftarrow> d # rest. found rm (makeId x)]
            = d # [x \<leftarrow> rest. found rm (makeId x)]" using True by simp
    ultimately show ?thesis by simp
  qed
qed

lemma delete_old_all:
  "\<forall>k. \<not> deleteOne_fails faults k \<Longrightarrow>
   delete_old faults rm coll coll = [d \<leftarrow> coll. found rm (makeId d)]"
  using delete_old_filter [of faults "[]" rm coll] by simp

lemma found_arrayToMap:
  "found (arrayToMap remote makeId) k
     = (k \<in> makeId ` set remote \<or> inherited (arrayToMap remote makeId) k)"
proof (cases "arrayToMap remote makeId k")
  case None
  then show ?thesis using arrayToMap_None [of remote makeId k] by (simp add: found_def)
next
  case (Some item)
  then have "k \<in> makeId ` set remote" using arrayToMap_None [of remote makeId k] by auto
  with Some show ?thesis by (simp add: found_def)
qed

lemma ids_bulkWrite:
  "set (map makeId (bulkWrite documents c)) = set (map makeId c) \<union> set (map makeId documents)"
proof (induction documents arbitrary: c)
  case Nil
  then show ?case by simp
next
  case (Cons document documents)
  have "set (map makeId (upsert (makeId document) document c))
          = insert (makeId document) (set (map makeId c))"
    by (auto simp: ids_upsert)
  with Cons.IH [of "upsert (makeId document) document c"] show ?case by auto
qed

lemma ids_makesToSave: "map makeId (makesToSave m remote) = map makeId remote"
  by (simp add: makesToSave_def comp_def if_distrib [of makeId])

lemma saveMakes_db:
  "saveMakes faults (Some remote) coll = Inr sv \<Longrightarrow>
   saved_makes sv = makesToSave (arrayToMap (find_coll faults coll) makeId) remote
   \<and> saved_db sv = bulkWrite (case bulkWrite_stops faults of None \<Rightarrow> saved_makes sv
                                | Some n \<Rightarrow> take n (saved_makes sv))
        (delete_old faults (arrayToMap remote makeId) (find_coll faults coll) coll)"
  by (auto simp: saveMakes_def Let_def insertOrUpdateMany_def split: option.splits)

lemma filter_delete_first_other:
  "k' \<noteq> k \<Longrightarrow> [d \<leftarrow> delete_first k' c. makeId d = k] = [d \<leftarrow> c. makeId d = k]"
  by (induction c) auto

lemma filter_delete_old_kept:
  "found rm k \<Longrightarrow> [d \<leftarrow> delete_old faults rm ds c. makeId d = k] = [d \<leftarrow> c. makeId d = k]"
proof (induction ds arbitrary: c)
  case Nil
  then show ?case by simp
next
  case (Cons x ds)
  have "\<not> found rm (makeId x) \<Longrightarrow> makeId x \<noteq> k" using Cons.prems by auto
  then have "[d \<leftarrow> (if \<not> found rm (makeId x) then deleteOne faults (makeId x) c else c). makeId d = k]
          = [d \<leftarrow> c. makeId d = k]"
    by (simp add: deleteOne_def filter_delete_first_other)
  with Cons.IH [OF Cons.prems] show ?case by simp
qed

lemma filter_update_first_other:
  "makeId document = k' \<Longrightarrow> k' \<noteq> k \<Longrightarrow>
   [d \<leftarrow> update_first k' document c. makeId d = k] = [d \<leftarrow> c. makeId d = k]"
  by (induction c) (auto simp: makeId_set_fields)

lemma stored_update_first_same:
  "makeId document = k \<Longrightarrow> vehicleTypes document = None \<Longrightarrow>
   map (\<lambda>d. (oid d, vehicleTypes d)) [d \<leftarrow> update_first k document c. makeId d = k]
     = map (\<lambda>d. (oid d, vehicleTypes d)) [d \<leftarrow> c. makeId d = k]"
  by (induction c) (auto simp: set_fields_def)

lemma stored_upsert:
  "makeId document = k' \<Longrightarrow>
   k' = k \<longrightarrow> vehicleTypes document = None \<and> k \<in> set (map makeId c) \<Longrightarrow>
   map (\<lambda>d. (oid d, vehicleTypes d)) [d \<leftarrow> upsert k' document c. makeId d = k]
     = map (\<lambda>d. (oid d, vehicleTypes d)) [d \<leftarrow> c. makeId d = k]"
  by (cases "k' = k")
     (auto simp: upsert_def stored_update_first_same filter_update_first_other)

lemma stored_bulkWrite:
  "k \<in> set (map makeId c) \<Longrightarrow>
   \<forall>document \<in> set documents. makeId document = k \<longrightarrow> vehicleTypes document = None \<Longrightarrow>
   map (\<lambda>d. (oid d, vehicleTypes d)) [d \<leftarrow> bulkWrite documents c. makeId d = k]
     = map (\<lambda>d. (oid d, vehicleTypes d)) [d \<leftarrow> c. makeId d = k]"
proof (induction documents arbitrary: c)
  case Nil
  then show ?case by simp
next
  case (Cons document documents)
  let ?c = "upsert (makeId document) document c"
  have in': "k \<in> set (map makeId ?c)" using Cons.prems(1) by (simp add: ids_upsert)
  have rest: "\<forall>x \<in> set documents. makeId x = k \<longrightarrow> vehicleTypes x = None"
    using Cons.prems(2) by simp
  have "map (\<lambda>d. (oid d, vehicleTypes d)) [d \<leftarrow> ?c. makeId d = k]
          = map (\<lambda>d. (oid d, vehicleTypes d)) [d \<leftarrow> c. makeId d = k]"
    using Cons.prems by (intro stored_upsert) simp_all
  with Cons.IH [OF in' rest] show ?case by simp
qed

lemma saveMakes_returns: "\<exists>sv. saveMakes faults (Some remote) coll = Inr sv"
  by (simp add: saveMakes_def Let_def split: prod.split)

lemma arrayToMap_loop_append:
  "arrayToMap_loop (xs @ ys) key m = arrayToMap_loop ys key (arrayToMap_loop xs key m)"
  by (induction xs arbitrary: m) simp_all

lemma arrayToMap_snoc: "arrayToMap (xs @ [x]) key = (arrayToMap xs key)(key x \<mapsto> x)"
  by (simp add: arrayToMap_def arrayToMap_loop_append)

lemma arrayToMap_map:
  "(\<And>x. key (f x) = key x) \<Longrightarrow>
   arrayToMap (map f xs) key k = map_option f (arrayToMap xs key k)"
proof (induction xs rule: rev_induct)
  case Nil
  then show ?case by (simp add: arrayToMap_def)
next
  case (snoc x xs)
  then show ?case using arrayToMap_snoc [of "map f xs" "f x" key] by (simp add: arrayToMap_snoc)
qed

lemma has_types_cong:
  "vehicleTypes d = vehicleTypes d' \<Longrightarrow> has_types (Some d) = has_types (Some d')"
  by (simp add: has_types_def)

lemma writes_frame:
  "foldl (\<lambda>d u. if makeId u = makeId d then set_fields u d else d) d docs
     = d\<lparr>makeName := makeName (foldl (\<lambda>d u. if makeId u = makeId d then set_fields u d else d) d docs),
         vehicleTypes := vehicleTypes (foldl (\<lambda>d u. if makeId u = makeId d then set_fields u d else d) d docs)\<rparr>"
proof (induction docs rule: rev_induct)
  case Nil
  then show ?case by simp
next
  case (snoc x docs)
  let ?d = "foldl (\<lambda>d u. if makeId u = makeId d then set_fields u d else d) d docs"
  show ?case
  proof (cases "makeId x = makeId ?d")
    case True
    have "set_fields x ?d = ?d\<lparr>makeName := makeName (set_fields x ?d),
        vehicleTypes := vehicleTypes (set_fields x ?d)\<rparr>"
      using True by (simp add: set_fields_def)
    also have "\<dots> = d\<lparr>makeName := makeName (set_fields x ?d),
        vehicleTypes := vehicleTypes (set_fields x ?d)\<rparr>"
      by (subst snoc.IH) simp
    finally show ?thesis using True by simp
  next
    case False
    then show ?thesis using snoc.IH by simp
  qed
qed

lemma writes_makeId:
  "makeId (foldl (\<lambda>d u. if makeId u = makeId d then set_fields u d else d) d docs) = makeId d"
  by (subst writes_frame) simp

lemma writes_name:
  "arrayToMap docs makeId (makeId d) = Some l \<Longrightarrow>
   makeName (foldl (\<lambda>d u. if makeId u = makeId d then set_fields u d else d) d docs) = makeName l"
proof (induction docs arbitrary: l rule: rev_induct)
  case Nil
  then show ?case by (simp add: arrayToMap_def)
next
  case (snoc x docs)
  show ?case
  proof (cases "makeId x = makeId d")
    case True
    then have "l = x" using snoc.prems by (simp add: arrayToMap_snoc)
    then show ?thesis using True by (simp add: writes_makeId set_fields_def)
  next
    case False
    then have "arrayToMap docs makeId (makeId d) = Some l"
      using snoc.prems by (simp add: arrayToMap_snoc)
    from snoc.IH [OF this] False show ?thesis by (simp add: writes_makeId)
  qed
qed

lemma writes_types:
  "\<forall>u \<in> set docs. makeId u = makeId d \<longrightarrow> vehicleTypes u = v \<Longrightarrow>
   vehicleTypes (foldl (\<lambda>d u. if makeId u = makeId d then set_fields u d else d) d docs)
     = (if makeId d \<in> makeId ` set docs
        then (case v of None \<Rightarrow> vehicleTypes d | Some x \<Rightarrow> Some x) else vehicleTypes d)"
proof (induction docs rule: rev_induct)
  case Nil
  then show ?case by simp
next
  case (snoc x docs)
  then show ?case
    by (auto simp: writes_makeId set_fields_def split: option.splits)
qed

lemma stored_upsert_other:
  "makeId u = k' \<Longrightarrow> k' \<noteq> k \<Longrightarrow>
   [d \<leftarrow> upsert k' u c. makeId d = k] = [d \<leftarrow> c. makeId d = k]"
  by (simp add: upsert_def filter_update_first_other)

lemma stored_update_first:
  "makeId u = k \<Longrightarrow> [d \<leftarrow> c. makeId d = k] = x # xs \<Longrightarrow>
   [d \<leftarrow> update_first k u c. makeId d = k] = set_fields u x # xs"
proof (induction c)
  case Nil
  then show ?case by simp
next
  case (Cons d ds)
  then show ?case by (cases "makeId d = k") (simp_all add: makeId_set_fields)
qed

lemma stored_nonempty:
  "[d \<leftarrow> c. makeId d = k] = x # xs \<Longrightarrow> k \<in> set (map makeId c) \<and> makeId x = k"
proof -
  assume a: "[d \<leftarrow> c. makeId d = k] = x # xs"
  then have "x \<in> set [d \<leftarrow> c. makeId d = k]" by simp
  then have "x \<in> set c" "makeId x = k" by simp_all
  then show ?thesis by force
qed

lemma stored_empty: "([d \<leftarrow> c. makeId d = k] = []) = (k \<notin> set (map makeId c))"
  by (auto simp: filter_empty_conv)

lemma stored_upsert_first:
  "makeId u = k \<Longrightarrow> [d \<leftarrow> c. makeId d = k] = x # xs \<Longrightarrow>
   [d \<leftarrow> upsert k u c. makeId d = k] = set_fields u x # xs"
  using stored_nonempty [where c = c and k = k and x = x and xs = xs]
  by (simp add: upsert_def stored_update_first)

lemma stored_upsert_new:
  "makeId u = k \<Longrightarrow> [d \<leftarrow> c. makeId d = k] = [] \<Longrightarrow>
   [d \<leftarrow> upsert k u c. makeId d = k]
     = [\<lparr>makeId = k, makeName = makeName u, vehicleTypes = vehicleTypes u,
         oid = Some (new_oid c)\<rparr>]"
  using stored_empty [where c = c and k = k] by (simp add: upsert_def)

lemma collection_eqI:
  "map makeId xs = map makeId ys \<Longrightarrow>
   (\<And>k. [d \<leftarrow> xs. makeId d = k] = [d \<leftarrow> ys. makeId d = k]) \<Longrightarrow> xs = (ys :: collection)"
proof (induction xs arbitrary: ys)
  case Nil
  then show ?case by simp
next
  case (Cons x xs)
  then obtain y ys' where ys: "ys = y # ys'" by (cases ys) auto
  have k: "makeId x = makeId y" and ids: "map makeId xs = map makeId ys'"
    using Cons.prems(1) ys by simp_all
  have heads: "x = y" using Cons.prems(2) [of "makeId x"] ys k by simp
  have "[d \<leftarrow> xs. makeId d = k] = [d \<leftarrow> ys'. makeId d = k]" for k
    using Cons.prems(2) [of k] ys heads by (cases "makeId y = k") simp_all
  from Cons.IH [OF ids this] heads ys show ?case by simp
qed

lemma arrayToMap_last:
  "arrayToMap xs key k
     = (if [x \<leftarrow> xs. key x = k] = [] then None else Some (last [x \<leftarrow> xs. key x = k]))"
proof (induction xs rule: rev_induct)
  case Nil
  then show ?case by (simp add: arrayToMap_def)
next
  case (snoc x xs)
  then show ?case by (simp add: arrayToMap_snoc)
qed

lemma stored_bulkWrite_first:
  "[d \<leftarrow> c. makeId d = k] = x # xs \<Longrightarrow>
   [d \<leftarrow> bulkWrite docs c. makeId d = k]
     = foldl (\<lambda>d u. if makeId u = makeId d then set_fields u d else d) x docs # xs"
proof (induction docs arbitrary: c x)
  case Nil
  then show ?case by simp
next
  case (Cons u docs)
  have kx: "makeId x = k" using stored_nonempty [OF Cons.prems] by simp
  show ?case
  proof (cases "makeId u = k")
    case True
    from stored_upsert_first [OF True Cons.prems]
    have "[d \<leftarrow> upsert (makeId u) u c. makeId d = k] = set_fields u x # xs" using True by simp
    from Cons.IH [OF this] True kx show ?thesis by simp
  next
    case False
    from stored_upsert_other [where u = u and c = c, OF refl False] Cons.prems
    have "[d \<leftarrow> upsert (makeId u) u c. makeId d = k] = x # xs" by simp
    from Cons.IH [OF this] False kx show ?thesis by simp
  qed
qed

lemma stored_bulkWrite_new:
  "[d \<leftarrow> c. makeId d = k] = [] \<Longrightarrow> k \<in> makeId ` set docs \<Longrightarrow>
   \<exists>d0. makeId d0 = k
     \<and> [d \<leftarrow> bulkWrite docs c. makeId d = k]
         = [foldl (\<lambda>d u. if makeId u = makeId d then set_fields u d else d) d0 docs]"
proof (induction docs arbitrary: c)
  case Nil
  then show ?case by simp
next
  case (Cons u docs)
  show ?case
  proof (cases "makeId u = k")
    case True
    let ?d0 = "\<lparr>makeId = k, makeName = makeName u, vehicleTypes = vehicleTypes u,
                 oid = Some (new_oid c)\<rparr>"
    from stored_upsert_new [OF True Cons.prems(1)]
    have "[d \<leftarrow> upsert (makeId u) u c. makeId d = k] = [?d0]" using True by simp
    from stored_bulkWrite_first [OF this, of docs]
    have "[d \<leftarrow> bulkWrite (u # docs) c. makeId d = k]
        = [foldl (\<lambda>d u. if makeId u = makeId d then set_fields u d else d) ?d0 docs]" by simp
    moreover have "set_fields u ?d0 = ?d0" by (simp add: set_fields_def True split: option.splits)
    ultimately have "[d \<leftarrow> bulkWrite (u # docs) c. makeId d = k]
        = [foldl (\<lambda>d u. if makeId u = makeId d then set_fields u d else d) ?d0 (u # docs)]"
      using True by simp
    moreover have "makeId ?d0 = k" by simp
    ultimately show ?thesis by blast
  next
    case False
    from stored_upsert_other [where u = u and c = c, OF refl False] Cons.prems(1)
    have e: "[d \<leftarrow> upsert (makeId u) u c. makeId d = k] = []" by simp
    have "k \<in> makeId ` set docs" using Cons.prems(2) False by auto
    from Cons.IH [OF e this] obtain d0 where d0: "makeId d0 = k"
      "[d \<leftarrow> bulkWrite docs (upsert (makeId u) u c). makeId d = k]
         = [foldl (\<lambda>d u. if makeId u = makeId d then set_fields u d else d) d0 docs]" by blast
    then have "[d \<leftarrow> bulkWrite (u # docs) c. makeId d = k]
         = [foldl (\<lambda>d u. if makeId u = makeId d then set_fields u d else d) d0 (u # docs)]"
      using False by simp
    with d0(1) show ?thesis by blast
  qed
qed

lemma ids_bulkWrite_present:
  "set (map makeId docs) \<subseteq> set (map makeId c) \<Longrightarrow> map makeId (bulkWrite docs c) = map makeId c"
proof (induction docs arbitrary: c)
  case Nil
  then show ?case by simp
next
  case (Cons u docs)
  have "map makeId (upsert (makeId u) u c) = map makeId c"
    using Cons.prems by (simp add: ids_upsert)
  with Cons.IH [of "upsert (makeId u) u c"] Cons.prems show ?case by simp
qed

section \<open>Lemmas on the type loader\<close>

text \<open>The loop and the operations it leaves pending apply \<open>readAndSave\<close> once for each
  make, in the order of the loop.\<close>

lemma types_loop_effect:
  "0 \<le> ld_i st \<Longrightarrow>
   (let st' = settle src faults (types_loop src faults mks st) in (ld_makesMap st', ld_db st'))
     = foldl (\<lambda>s k. readAndSave src faults k s) (ld_makesMap st, ld_db st)
         (ld_promises st @ map makeId mks)"
proof (induction mks arbitrary: st)
  case Nil
  then show ?case by (simp add: settle_def Let_def)
next
  case (Cons mk rest)
  then show ?case
    by (simp add: settle_def Let_def TEST_REQUESTS_def)
qed



lemma started_append: "started (t @ u) = started t @ started u"
  by (induction t rule: started.induct) simp_all

lemma types_loop_started:
  "0 \<le> ld_i st \<Longrightarrow>
   started (ld_trace (types_loop src faults mks st)) = started (ld_trace st) @ map makeId mks"
proof (induction mks arbitrary: st)
  case Nil
  then show ?case by simp
next
  case (Cons mk rest)
  then show ?case
    by (simp add: settle_def Let_def TEST_REQUESTS_def started_append)
qed

lemma started_loadAndSaveVehicleTypes:
  "started (loaded_trace (loadAndSaveVehicleTypes src faults rnd allMakes coll))
     = map makeId (shuffle rnd allMakes)"
  by (simp add: loadAndSaveVehicleTypes_def Let_def types_loop_started)

lemma in_flight_le_peak: "foldl in_flight_step n t \<le> peak_in_flight n t"
proof (induction t arbitrary: n)
  case Nil
  then show ?case by simp
next
  case (Cons e t)
  show ?case using Cons.IH [of "in_flight_step n e"] by simp
qed

lemma le_peak: "n \<le> peak_in_flight n t"
  by (cases t) simp_all

lemma peak_append:
  "peak_in_flight n (t @ u)
     = max (peak_in_flight n t) (peak_in_flight (foldl in_flight_step n t) u)"
proof (induction t arbitrary: n)
  case Nil
  then show ?case using le_peak [of n u] by simp
next
  case (Cons e t)
  then show ?case by simp
qed

lemma types_loop_peak:
  "0 \<le> ld_i st \<Longrightarrow> length (ld_promises st) \<le> CONCURRENT_REQUESTS \<Longrightarrow>
   foldl in_flight_step 0 (ld_trace st) = length (ld_promises st) \<Longrightarrow>
   peak_in_flight 0 (ld_trace (types_loop src faults mks st))
     = max (peak_in_flight 0 (ld_trace st))
           (min (length (ld_promises st) + length mks) (Suc CONCURRENT_REQUESTS))"
proof (induction mks arbitrary: st)
  case Nil
  then show ?case using in_flight_le_peak [of 0 "ld_trace st"] by simp
next
  case (Cons mk rest)
  let ?p = "length (ld_promises st)"
  let ?t = "ld_trace st"
  show ?case
  proof (cases "CONCURRENT_REQUESTS < Suc ?p")
    case True
    then have p: "?p = CONCURRENT_REQUESTS" using Cons.prems by simp
    let ?st3 = "(settle src faults (st\<lparr>ld_promises := ld_promises st @ [makeId mk],
                   ld_trace := ?t @ [Start (makeId mk)]\<rparr>))
                 \<lparr>ld_trace := (?t @ [Start (makeId mk)]) @ [AwaitAll, Sleep SLEEP_SECONDS],
                  ld_i := ld_i st + 1\<rparr>"
    have step: "types_loop src faults (mk # rest) st = types_loop src faults rest ?st3"
      using True Cons.prems(1) by (simp add: Let_def TEST_REQUESTS_def settle_def)
    have a: "0 \<le> ld_i ?st3" using Cons.prems(1) by simp
    have b: "length (ld_promises ?st3) \<le> CONCURRENT_REQUESTS" by (simp add: settle_def Let_def)
    have c: "foldl in_flight_step 0 (ld_trace ?st3) = length (ld_promises ?st3)"
      by (simp add: settle_def Let_def)
    have pk: "peak_in_flight 0 (ld_trace ?st3) = max (peak_in_flight 0 ?t) (Suc CONCURRENT_REQUESTS)"
      using Cons.prems(3) p by (simp add: peak_append)
    have "length (ld_promises ?st3) = 0" by (simp add: settle_def Let_def)
    with Cons.IH [OF a b c] pk step p show ?thesis by simp
  next
    case False
    let ?st3 = "st\<lparr>ld_promises := ld_promises st @ [makeId mk],
                   ld_trace := ?t @ [Start (makeId mk)], ld_i := ld_i st + 1\<rparr>"
    have step: "types_loop src faults (mk # rest) st = types_loop src faults rest ?st3"
      using False Cons.prems(1) by (simp add: Let_def TEST_REQUESTS_def)
    have a: "0 \<le> ld_i ?st3" using Cons.prems(1) by simp
    have b: "length (ld_promises ?st3) \<le> CONCURRENT_REQUESTS" using False by simp
    have c: "foldl in_flight_step 0 (ld_trace ?st3) = length (ld_promises ?st3)"
      using Cons.prems(3) by simp
    have pk: "peak_in_flight 0 (ld_trace ?st3) = max (peak_in_flight 0 ?t) (Suc ?p)"
      using Cons.prems(3) by (simp add: peak_append)
    from Cons.IH [OF a b c] pk step False show ?thesis by simp
  qed
qed

lemma peak_loadAndSaveVehicleTypes:
  "peak_in_flight 0 (loaded_trace (loadAndSaveVehicleTypes src faults rnd allMakes coll))
     = min (length allMakes) (Suc CONCURRENT_REQUESTS)"
  using types_loop_peak [of "\<lparr>ld_makesMap = arrayToMap allMakes makeId, ld_db = coll,
      ld_promises = [], ld_i = 0, ld_trace = []\<rparr>" src faults "shuffle rnd allMakes"]
  by (simp add: loadAndSaveVehicleTypes_def Let_def length_shuffle)

lemma settled_db_eq:
  "settled_db src faults (loadAndSaveVehicleTypes src faults rnd allMakes coll)
     = snd (foldl (\<lambda>s k. readAndSave src faults k s) (arrayToMap allMakes makeId, coll)
              (map makeId (shuffle rnd allMakes)))"
proof -
  let ?st = "\<lparr>ld_makesMap = arrayToMap allMakes makeId, ld_db = coll,
      ld_promises = [], ld_i = 0, ld_trace = []\<rparr>"
  have "snd (let st' = settle src faults (types_loop src faults (shuffle rnd allMakes) ?st)
             in (ld_makesMap st', ld_db st'))
          = snd (foldl (\<lambda>s k. readAndSave src faults k s) (ld_makesMap ?st, ld_db ?st)
                   (ld_promises ?st @ map makeId (shuffle rnd allMakes)))"
    by (subst types_loop_effect) simp_all
  then show ?thesis
    by (simp add: settled_db_def loadAndSaveVehicleTypes_def settle_def Let_def)
qed

lemma distinct_settle:
  "distinct (map makeId (ld_db st)) \<Longrightarrow> distinct (map makeId (ld_db (settle src faults st)))"
  using distinct_run_ops [of "(ld_makesMap st, ld_db st)" src faults "ld_promises st"]
  by (simp add: settle_def Let_def)

lemma distinct_types_loop:
  "distinct (map makeId (ld_db st)) \<Longrightarrow>
   distinct (map makeId (ld_db (types_loop src faults mks st)))"
proof (induction mks arbitrary: st)
  case Nil
  then show ?case by simp
next
  case (Cons mk rest)
  let ?st1 = "st\<lparr>ld_promises := ld_promises st @ [makeId mk],
                  ld_trace := ld_trace st @ [Start (makeId mk)]\<rparr>"
  let ?st2 = "if CONCURRENT_REQUESTS < length (ld_promises ?st1)
              then (settle src faults ?st1)\<lparr>ld_trace := ld_trace ?st1 @ [AwaitAll, Sleep SLEEP_SECONDS]\<rparr>
              else ?st1"
  let ?st3 = "?st2\<lparr>ld_i := ld_i ?st2 + 1\<rparr>"
  have "distinct (map makeId (ld_db ?st1))" using Cons.prems by simp
  then have "distinct (map makeId (ld_db ?st2))" using distinct_settle [of ?st1 src faults] by simp
  then have d3: "distinct (map makeId (ld_db ?st3))" by simp
  have "types_loop src faults (mk # rest) st
          = (if ld_i ?st2 = TEST_REQUESTS then ?st3 else types_loop src faults rest ?st3)"
    by (simp add: Let_def)
  then show ?case using d3 Cons.IH [OF d3] by (cases "ld_i ?st2 = TEST_REQUESTS") simp_all
qed

lemma distinct_loadAndSaveVehicleTypes:
  "distinct (map makeId coll) \<Longrightarrow>
   distinct (map makeId (loaded_db (loadAndSaveVehicleTypes src faults rnd allMakes coll)))"
  by (simp add: loadAndSaveVehicleTypes_def Let_def distinct_types_loop)

lemma distinct_settled_db:
  "distinct (map makeId coll) \<Longrightarrow>
   distinct (map makeId
     (settled_db src faults (loadAndSaveVehicleTypes src faults rnd allMakes coll)))"
  by (simp add: settled_db_eq distinct_run_ops)

lemma distinct_startLoading:
  "distinct (map makeId coll) \<Longrightarrow>
   distinct (map makeId (run_db (startLoading src faults rnd coll)))"
  by (auto simp: startLoading_def Let_def distinct_loadAndSaveVehicleTypes
      dest: distinct_saveMakes split: sum.splits)

lemma run_settled_startLoading:
  "run_settled src faults (startLoading src faults rnd coll)
     = (case loadAllMakes src of
          Inl e \<Rightarrow> coll
        | Inr allMakes \<Rightarrow>
            (case saveMakes faults allMakes coll of
               Inl e \<Rightarrow> coll
             | Inr sv \<Rightarrow>
                 settled_db src faults
                   (loadAndSaveVehicleTypes src faults rnd (saved_makes sv) (saved_db sv))))"
  by (simp add: run_settled_def startLoading_def settled_db_def Let_def split: sum.splits)

lemma distinct_run_settled:
  "distinct (map makeId coll) \<Longrightarrow>
   distinct (map makeId (run_settled src faults (startLoading src faults rnd coll)))"
  by (auto simp: run_settled_startLoading distinct_settled_db
      dest: distinct_saveMakes split: sum.splits)








lemma readAndSave_keyed:
  "\<forall>k v. fst st k = Some v \<longrightarrow> makeId v = k \<Longrightarrow>
   \<forall>k v. fst (readAndSave src faults k' st) k = Some v \<longrightarrow> makeId v = k"
  by (auto simp: readAndSave_def Let_def split: sum.splits option.splits if_splits)







lemma arrayToMap_keyed: "\<forall>k v. arrayToMap xs makeId k = Some v \<longrightarrow> makeId v = k"
  by (auto dest: arrayToMap_Some [of xs makeId])

lemma readAndSave_entry:
  "fst st k = Some e \<Longrightarrow>
   \<exists>e'. fst (readAndSave src faults k' st) k = Some e' \<and> makeId e' = makeId e
        \<and> makeName e' = makeName e"
  by (auto simp: readAndSave_def Let_def split: sum.splits option.splits)

lemma run_entry:
  "fst st k = Some e \<Longrightarrow>
   \<exists>e'. fst (foldl (\<lambda>s k. readAndSave src faults k s) st ks) k = Some e'
        \<and> makeId e' = makeId e \<and> makeName e' = makeName e"
proof (induction ks arbitrary: st e)
  case Nil
  then show ?case by simp
next
  case (Cons k' ks)
  from readAndSave_entry [OF Cons.prems, of src faults k']
  obtain e' where e': "fst (readAndSave src faults k' st) k = Some e'"
    "makeId e' = makeId e" "makeName e' = makeName e" by blast
  from Cons.IH [OF e'(1)] e'(2,3) show ?case by simp
qed

lemma set_fields_same_key:
  "makeId d = makeId u \<Longrightarrow>
   set_fields u d = d\<lparr>makeName := makeName u,
     vehicleTypes := (case vehicleTypes u of None \<Rightarrow> vehicleTypes d | Some v \<Rightarrow> Some v)\<rparr>"
  by (simp add: set_fields_def)

lemma types_run_stored:
  assumes up: "\<forall>k. \<not> insertOrUpdate_fails faults k"
    and first: "[d \<leftarrow> c. makeId d = k] = x # xs"
  shows "\<forall>k' \<in> set ks. \<exists>e. m k' = Some e \<and> makeId e = k' \<and> makeName e = name k' \<Longrightarrow>
     [d \<leftarrow> snd (foldl (\<lambda>s k. readAndSave src faults k s) (m, c) ks). makeId d = k]
       = (if k \<in> set ks
          then (case readVehicleTypesFromAPI src k of
                  Inl e \<Rightarrow> x
                | Inr ts \<Rightarrow> x\<lparr>makeName := name k, vehicleTypes := Some ts\<rparr>)
          else x) # xs"
proof (induction ks rule: rev_induct)
  case Nil
  then show ?case using first by simp
next
  case (snoc k' ks)
  let ?T = "case readVehicleTypesFromAPI src k of
              Inl e \<Rightarrow> x
            | Inr ts \<Rightarrow> x\<lparr>makeName := name k, vehicleTypes := Some ts\<rparr>"
  let ?st = "foldl (\<lambda>s k. readAndSave src faults k s) (m, c) ks"
  have kx: "makeId x = k" using stored_nonempty [OF first] by simp
  have ent: "\<forall>k' \<in> set ks. \<exists>e. m k' = Some e \<and> makeId e = k' \<and> makeName e = name k'"
    using snoc.prems by simp
  have IH: "[d \<leftarrow> snd ?st. makeId d = k] = (if k \<in> set ks then ?T else x) # xs"
    using snoc.IH [OF ent] .
  obtain e where e: "m k' = Some e" "makeId e = k'" "makeName e = name k'"
    using snoc.prems by auto
  from run_entry [of "(m, c)" k' e src faults ks] e
  obtain e' where e': "fst ?st k' = Some e'" "makeId e' = k'" "makeName e' = name k'"
    by auto
  show ?case
  proof (cases "readVehicleTypesFromAPI src k'")
    case (Inl err)
    then have "snd (readAndSave src faults k' ?st) = snd ?st"
      by (simp add: readAndSave_def)
    then show ?thesis using IH Inl by (cases "k' = k") simp_all
  next
    case (Inr ts)
    let ?u = "e'\<lparr>vehicleTypes := Some ts\<rparr>"
    have u: "makeId ?u = k'" using e'(2) by simp
    have step: "snd (readAndSave src faults k' ?st) = upsert k' ?u (snd ?st)"
      using Inr e' up
      by (simp add: readAndSave_def Let_def saveVehicleTypes_def insertOrUpdate_def)
    show ?thesis
    proof (cases "k' = k")
      case False
      then show ?thesis
        using step IH stored_upsert_other [OF u False, of "snd ?st"] by simp
    next
      case True
      let ?x = "if k \<in> set ks then ?T else x"
      have "makeId ?x = makeId ?u" using kx u True by (simp split: sum.splits)
      from set_fields_same_key [OF this]
      have "set_fields ?u ?x = x\<lparr>makeName := name k, vehicleTypes := Some ts\<rparr>"
        using e'(3) True Inr by (simp split: sum.splits)
      moreover have "[d \<leftarrow> upsert k ?u (snd ?st). makeId d = k] = set_fields ?u ?x # xs"
        using stored_upsert_first [where u = ?u and k = k, OF _ IH] u True by simp
      ultimately show ?thesis using step True Inr by simp
    qed
  qed
qed

lemma ids_types_run:
  "set ks \<subseteq> set (map makeId c) \<Longrightarrow> \<forall>k e. m k = Some e \<longrightarrow> makeId e = k \<Longrightarrow>
   map makeId (snd (foldl (\<lambda>s k. readAndSave src faults k s) (m, c) ks)) = map makeId c"
proof (induction ks arbitrary: m c)
  case Nil
  then show ?case by simp
next
  case (Cons k ks)
  let ?st = "readAndSave src faults k (m, c)"
  have keyed: "\<forall>k e. fst ?st k = Some e \<longrightarrow> makeId e = k"
    using readAndSave_keyed [of "(m, c)" src faults k] Cons.prems(2) by simp
  have ids: "map makeId (snd ?st) = map makeId c"
    using Cons.prems
    by (auto simp: readAndSave_def Let_def saveVehicleTypes_def insertOrUpdate_def ids_upsert
        split: sum.splits option.splits)
  have "set ks \<subseteq> set (map makeId (snd ?st))" using Cons.prems(1) ids by simp
  from Cons.IH [OF this, of "fst ?st"] keyed ids show ?case by simp
qed

section \<open>Lemmas on a whole run\<close>

lemma loadAllMakes_shells:
  "loadAllMakes src = Inr (Some ms) \<Longrightarrow> \<forall>m \<in> set ms. vehicleTypes m = Some (Types [])"
  by (auto simp: loadAllMakes_def extractMakeObjects_def new_VehicleMake_def
      split: sum.splits children.splits)

lemma makesToSave_types:
  "\<forall>m \<in> set ms. vehicleTypes m = Some (Types []) \<Longrightarrow> u \<in> set (makesToSave M ms) \<Longrightarrow>
   vehicleTypes u = (if has_types (M (makeId u)) then None else Some (Types []))
   \<and> makeId u \<in> makeId ` set ms"
  by (auto simp: makesToSave_def no_types_def)

lemma arrayToMap_makesToSave:
  "arrayToMap (makesToSave M ms) makeId k = Some e \<Longrightarrow>
   \<exists>l. arrayToMap ms makeId k = Some l \<and> makeName e = makeName l \<and> makeId e = k"
proof -
  let ?f = "\<lambda>make. if has_types (M (makeId make)) \<and> no_types make
                    then make\<lparr>vehicleTypes := None\<rparr> else make"
  assume a: "arrayToMap (makesToSave M ms) makeId k = Some e"
  have "arrayToMap (map ?f ms) makeId k = map_option ?f (arrayToMap ms makeId k)"
    by (rule arrayToMap_map) simp
  with a obtain l where l: "arrayToMap ms makeId k = Some l" "e = ?f l"
    by (auto simp: makesToSave_def)
  moreover have "makeId l = k" using arrayToMap_Some [OF l(1)] by simp
  ultimately show ?thesis by auto
qed

lemma arrayToMap_makesToSave_entry:
  "k \<in> makeId ` set ms \<Longrightarrow>
   \<exists>e. arrayToMap (makesToSave M ms) makeId k = Some e \<and> makeId e = k
       \<and> makeName e = makeName (the (arrayToMap ms makeId k))"
proof -
  assume "k \<in> makeId ` set ms"
  then have "k \<in> makeId ` set (makesToSave M ms)"
    using ids_makesToSave [of M ms] by (metis set_map)
  then obtain e where e: "arrayToMap (makesToSave M ms) makeId k = Some e"
    using arrayToMap_None [of "makesToSave M ms" makeId k] by auto
  from arrayToMap_makesToSave [OF e] e show ?thesis by auto
qed

lemma run_settled_eq:
  assumes load: "loadAllMakes src = Inr (Some ms)"
  shows "run_settled src no_faults (startLoading src no_faults rnd S)
     = snd (foldl (\<lambda>s k. readAndSave src no_faults k s)
         (arrayToMap (makesToSave (arrayToMap S makeId) ms) makeId,
          bulkWrite (makesToSave (arrayToMap S makeId) ms) [d \<leftarrow> S. found (arrayToMap ms makeId) (makeId d)])
         (map makeId (shuffle rnd (makesToSave (arrayToMap S makeId) ms))))"
proof -
  obtain sv where sv: "saveMakes no_faults (Some ms) S = Inr sv"
    using saveMakes_returns by blast
  have nf: "\<forall>k. \<not> deleteOne_fails no_faults k" "find_coll no_faults S = S"
    "bulkWrite_stops no_faults = None"
    by (simp_all add: no_faults_def find_coll_def)
  have "saved_makes sv = makesToSave (arrayToMap S makeId) ms"
    using saveMakes_db [OF sv] nf(2) by simp
  moreover have "saved_db sv = bulkWrite (makesToSave (arrayToMap S makeId) ms)
      [d \<leftarrow> S. found (arrayToMap ms makeId) (makeId d)]"
    using saveMakes_db [OF sv] nf(2,3) delete_old_all [OF nf(1), of "arrayToMap ms makeId" S]
    by simp
  ultimately show ?thesis
    using load sv by (simp add: run_settled_startLoading settled_db_eq)
qed

lemma stored_filter_ids:
  "P k \<Longrightarrow> [d \<leftarrow> [d \<leftarrow> S. P (makeId d)]. makeId d = k] = [d \<leftarrow> S. makeId d = k]"
  by (induction S) auto

lemma found_remote: "k \<in> makeId ` set ms \<Longrightarrow> found (arrayToMap ms makeId) k"
  by (simp add: found_arrayToMap)

lemma writes_none:
  "makeId d \<notin> makeId ` set docs \<Longrightarrow>
   foldl (\<lambda>d u. if makeId u = makeId d then set_fields u d else d) d docs = d"
  by (induction docs arbitrary: d) auto

lemma ids_run_settled:
  assumes load: "loadAllMakes src = Inr (Some ms)"
  shows "makeId ` set ms \<subseteq> set (map makeId (run_settled src no_faults (startLoading src no_faults rnd S)))
     \<and> (\<forall>d \<in> set (run_settled src no_faults (startLoading src no_faults rnd S)).
           found (arrayToMap ms makeId) (makeId d))"
proof -
  let ?toSave = "makesToSave (arrayToMap S makeId) ms"
  let ?c1 = "[d \<leftarrow> S. found (arrayToMap ms makeId) (makeId d)]"
  let ?c2 = "bulkWrite ?toSave ?c1"
  let ?ks = "map makeId (shuffle rnd ?toSave)"
  let ?run = "run_settled src no_faults (startLoading src no_faults rnd S)"
  have toSave: "set (map makeId ?toSave) = makeId ` set ms"
    by (simp only: ids_makesToSave set_map)
  have ids2: "set (map makeId ?c2) = set (map makeId ?c1) \<union> makeId ` set ms"
    using ids_bulkWrite [of ?toSave ?c1] by (simp only: toSave)
  have ks: "set ?ks = makeId ` set ms"
    using toSave by (simp only: set_map set_shuffle)
  have sub: "set ?ks \<subseteq> set (map makeId ?c2)" using ks ids2 by blast
  have "map makeId (snd (foldl (\<lambda>s k. readAndSave src no_faults k s)
         (arrayToMap ?toSave makeId, ?c2) ?ks)) = map makeId ?c2"
    using sub arrayToMap_keyed [of ?toSave] by (rule ids_types_run)
  then have eq: "map makeId ?run = map makeId ?c2"
    by (simp only: run_settled_eq [OF load])
  then have A: "set (map makeId ?run) = set (map makeId ?c2)" by (rule arg_cong)
  have F: "found (arrayToMap ms makeId) k" if "k \<in> set (map makeId ?c2)" for k
  proof -
    from that ids2 have "k \<in> set (map makeId ?c1) \<or> k \<in> makeId ` set ms" by blast
    then show ?thesis
    proof
      assume "k \<in> set (map makeId ?c1)"
      then obtain d where "d \<in> set ?c1" "makeId d = k" by auto
      then show ?thesis by simp
    next
      assume "k \<in> makeId ` set ms"
      then show ?thesis by (rule found_remote)
    qed
  qed
  have "found (arrayToMap ms makeId) (makeId d)" if "d \<in> set ?run" for d
  proof -
    from that have "makeId d \<in> makeId ` set ?run" by (rule imageI)
    then have "makeId d \<in> set (map makeId ?c2)" using A by (simp only: set_map)
    then show ?thesis by (rule F)
  qed
  moreover have "makeId ` set ms \<subseteq> set (map makeId ?run)"
    using A ids2 by blast
  ultimately show ?thesis by blast
qed

lemma stored_run_settled:
  assumes load: "loadAllMakes src = Inr (Some ms)" and k: "k \<in> makeId ` set ms"
  shows "\<exists>x xs. [d \<leftarrow> run_settled src no_faults (startLoading src no_faults rnd S). makeId d = k] = x # xs
     \<and> makeName x = makeName (the (arrayToMap ms makeId k))
     \<and> (case readVehicleTypesFromAPI src k of
           Inl e \<Rightarrow> has_types (Some (last (x # xs))) \<or> vehicleTypes x = Some (Types [])
         | Inr ts \<Rightarrow> vehicleTypes x = Some ts)"
proof -
  let ?M = "arrayToMap S makeId"
  let ?toSave = "makesToSave ?M ms"
  let ?c1 = "[d \<leftarrow> S. found (arrayToMap ms makeId) (makeId d)]"
  let ?c2 = "bulkWrite ?toSave ?c1"
  let ?ks = "map makeId (shuffle rnd ?toSave)"
  let ?name = "\<lambda>k. makeName (the (arrayToMap ms makeId k))"
  let ?B = "\<lambda>d. foldl (\<lambda>d u. if makeId u = makeId d then set_fields u d else d) d ?toSave"
  let ?T = "\<lambda>x. case readVehicleTypesFromAPI src k of
                   Inl e \<Rightarrow> x
                 | Inr ts \<Rightarrow> x\<lparr>makeName := ?name k, vehicleTypes := Some ts\<rparr>"
  have nf: "\<forall>k. \<not> insertOrUpdate_fails no_faults k" by (simp add: no_faults_def)
  have shells: "\<forall>m \<in> set ms. vehicleTypes m = Some (Types [])"
    using load by (rule loadAllMakes_shells)
  have ks: "set ?ks = makeId ` set ms"
    using ids_makesToSave [of ?M ms] by (simp add: set_shuffle) (metis set_map)
  have ent: "\<forall>k' \<in> set ?ks. \<exists>e. arrayToMap ?toSave makeId k' = Some e \<and> makeId e = k'
       \<and> makeName e = ?name k'"
    using arrayToMap_makesToSave_entry ks by blast
  have kin: "k \<in> makeId ` set ?toSave" using k ids_makesToSave [of ?M ms] by (metis set_map)
  obtain u where u: "arrayToMap ?toSave makeId k = Some u" "makeName u = ?name k"
    using arrayToMap_makesToSave_entry [OF k, of ?M] by auto
  have uni: "\<forall>u \<in> set ?toSave. makeId u = k \<longrightarrow>
      vehicleTypes u = (if has_types (?M k) then None else Some (Types []))"
    using makesToSave_types [OF shells, of _ ?M] by auto
  have c1: "[d \<leftarrow> ?c1. makeId d = k] = [d \<leftarrow> S. makeId d = k]"
    using found_remote [OF k] by (rule stored_filter_ids)
  have fields: "makeName (?B y) = ?name k
      \<and> vehicleTypes (?B y) = (if has_types (?M k) then vehicleTypes y else Some (Types []))"
    if y: "makeId y = k" for y :: db_doc
  proof -
    have "makeName (?B y) = ?name k" using writes_name [of ?toSave y u] u y by simp
    moreover have "vehicleTypes (?B y) = (if has_types (?M k) then vehicleTypes y else Some (Types []))"
      using writes_types [of ?toSave y "if has_types (?M k) then None else Some (Types [])"]
        uni kin y by simp
    ultimately show ?thesis by simp
  qed
  have result: "[d \<leftarrow> run_settled src no_faults (startLoading src no_faults rnd S). makeId d = k] = ?T (?B y) # ys"
    if "[d \<leftarrow> ?c2. makeId d = k] = ?B y # ys" for y ys
    unfolding run_settled_eq [OF load]
    using types_run_stored [OF nf that ent] k ks by simp
  show ?thesis
  proof (cases "[d \<leftarrow> S. makeId d = k]")
    case Nil
    then have "[d \<leftarrow> ?c1. makeId d = k] = []" using c1 by simp
    from stored_bulkWrite_new [OF this kin] obtain d0 where d0: "makeId d0 = k"
      "[d \<leftarrow> ?c2. makeId d = k] = [?B d0]" by blast
    have "?M k = None" using Nil by (simp add: arrayToMap_last)
    then have "vehicleTypes (?B d0) = Some (Types [])"
      using fields [OF d0(1)] by (simp add: has_types_def)
    moreover have "makeName (?B d0) = ?name k" using fields [OF d0(1)] by simp
    ultimately show ?thesis
      using result [OF d0(2)] by (cases "readVehicleTypesFromAPI src k") simp_all
  next
    case (Cons y ys)
    then have first: "[d \<leftarrow> ?c1. makeId d = k] = y # ys" using c1 by simp
    have y: "makeId y = k" using stored_nonempty [OF Cons] by simp
    have c2: "[d \<leftarrow> ?c2. makeId d = k] = ?B y # ys"
      using first by (rule stored_bulkWrite_first)
    have M: "?M k = Some (last (y # ys))" using Cons by (simp add: arrayToMap_last)
    have "has_types (Some (last (?B y # ys))) \<or> vehicleTypes (?B y) = Some (Types [])"
    proof (cases "has_types (?M k)")
      case True
      then have "vehicleTypes (?B y) = vehicleTypes y" using fields [OF y] by simp
      then have "has_types (Some (?B y)) = has_types (Some y)" by (rule has_types_cong)
      then have "has_types (Some (last (?B y # ys)))" using True M by (cases ys) simp_all
      then show ?thesis by simp
    next
      case False
      then show ?thesis using fields [OF y] by simp
    qed
    moreover have "makeName (?B y) = ?name k" using fields [OF y] by simp
    ultimately show ?thesis
      using result [OF c2] by (cases "readVehicleTypesFromAPI src k") simp_all
  qed
qed

lemma rerun_unchanged:
  assumes load: "loadAllMakes src = Inr (Some ms)"
    and ids: "makeId ` set ms \<subseteq> set (map makeId S)"
    and kept: "\<forall>d \<in> set S. found (arrayToMap ms makeId) (makeId d)"
    and inv: "\<And>k. k \<in> makeId ` set ms \<Longrightarrow>
       \<exists>x xs. [d \<leftarrow> S. makeId d = k] = x # xs
         \<and> makeName x = makeName (the (arrayToMap ms makeId k))
         \<and> (case readVehicleTypesFromAPI src k of
               Inl e \<Rightarrow> has_types (Some (last (x # xs))) \<or> vehicleTypes x = Some (Types [])
             | Inr ts \<Rightarrow> vehicleTypes x = Some ts)"
  shows "run_settled src no_faults (startLoading src no_faults rnd S) = S"
proof (rule collection_eqI)
  let ?M = "arrayToMap S makeId"
  let ?toSave = "makesToSave ?M ms"
  let ?c2 = "bulkWrite ?toSave S"
  let ?ks = "map makeId (shuffle rnd ?toSave)"
  let ?name = "\<lambda>k. makeName (the (arrayToMap ms makeId k))"
  let ?B = "\<lambda>d. foldl (\<lambda>d u. if makeId u = makeId d then set_fields u d else d) d ?toSave"
  have nf: "\<forall>k. \<not> insertOrUpdate_fails no_faults k" by (simp add: no_faults_def)
  have shells: "\<forall>m \<in> set ms. vehicleTypes m = Some (Types [])"
    using load by (rule loadAllMakes_shells)
  have keep: "[d \<leftarrow> S. found (arrayToMap ms makeId) (makeId d)] = S"
    using kept by (intro filter_True) auto
  have run: "run_settled src no_faults (startLoading src no_faults rnd S)
      = snd (foldl (\<lambda>s k. readAndSave src no_faults k s) (arrayToMap ?toSave makeId, ?c2) ?ks)"
    using run_settled_eq [OF load, of rnd S] by (simp only: keep)
  have ks: "set ?ks = makeId ` set ms"
    using ids_makesToSave [of ?M ms] by (simp add: set_shuffle) (metis set_map)
  have sub: "set (map makeId ?toSave) \<subseteq> set (map makeId S)"
    using ids ids_makesToSave [of ?M ms] by (metis set_map)
  have ids2: "map makeId ?c2 = map makeId S" using sub by (rule ids_bulkWrite_present)
  show same_ids: "map makeId (run_settled src no_faults (startLoading src no_faults rnd S)) = map makeId S"
    unfolding run
    using ks ids ids2 arrayToMap_keyed [of ?toSave]
    by (subst ids_types_run) simp_all
  have nokey: "makeId x \<notin> makeId ` set ms \<Longrightarrow> ?B x = x" for x :: db_doc
    using ids_makesToSave [of ?M ms] writes_none [of x ?toSave] by (metis set_map)
  have ent: "\<forall>k' \<in> set ?ks. \<exists>e. arrayToMap ?toSave makeId k' = Some e \<and> makeId e = k'
       \<and> makeName e = ?name k'"
    using arrayToMap_makesToSave_entry ks by blast
  fix k
  show "[d \<leftarrow> run_settled src no_faults (startLoading src no_faults rnd S). makeId d = k] = [d \<leftarrow> S. makeId d = k]"
  proof (cases "k \<in> makeId ` set ms")
    case False
    show ?thesis
    proof (cases "[d \<leftarrow> S. makeId d = k]")
      case Nil
      then have "k \<notin> set (map makeId S)" using stored_empty [where c = S and k = k] by blast
      then have "k \<notin> set (map makeId (run_settled src no_faults (startLoading src no_faults rnd S)))"
        using same_ids by simp
      then have "[d \<leftarrow> run_settled src no_faults (startLoading src no_faults rnd S). makeId d = k] = []"
        using stored_empty [where c = "run_settled src no_faults (startLoading src no_faults rnd S)"
            and k = k]
        by blast
      with Nil show ?thesis by simp
    next
      case (Cons x xs)
      have kx: "makeId x = k" using stored_nonempty [OF Cons] by simp
      have "[d \<leftarrow> ?c2. makeId d = k] = ?B x # xs"
        using Cons by (rule stored_bulkWrite_first)
      then have c2: "[d \<leftarrow> ?c2. makeId d = k] = x # xs" using nokey [of x] False kx by simp
      have "[d \<leftarrow> run_settled src no_faults (startLoading src no_faults rnd S). makeId d = k] = x # xs"
        unfolding run using types_run_stored [OF nf c2 ent] False ks by simp
      with Cons show ?thesis by simp
    qed
  next
    case True
    from inv [OF True] obtain x xs where first: "[d \<leftarrow> S. makeId d = k] = x # xs"
      and nm: "makeName x = ?name k"
      and ty: "case readVehicleTypesFromAPI src k of
               Inl e \<Rightarrow> has_types (Some (last (x # xs))) \<or> vehicleTypes x = Some (Types [])
             | Inr ts \<Rightarrow> vehicleTypes x = Some ts" by blast
    have kx: "makeId x = k" using stored_nonempty [OF first] by simp
    have c2: "[d \<leftarrow> ?c2. makeId d = k] = ?B x # xs"
      using first by (rule stored_bulkWrite_first)
    have frame: "?B x = x\<lparr>makeName := makeName (?B x), vehicleTypes := vehicleTypes (?B x)\<rparr>"
      by (rule writes_frame)
    have after: "[d \<leftarrow> run_settled src no_faults (startLoading src no_faults rnd S). makeId d = k]
        = (case readVehicleTypesFromAPI src k of
             Inl e \<Rightarrow> ?B x
           | Inr ts \<Rightarrow> (?B x)\<lparr>makeName := ?name k, vehicleTypes := Some ts\<rparr>) # xs"
      unfolding run using types_run_stored [OF nf c2 ent] True ks by simp
    have "(case readVehicleTypesFromAPI src k of
             Inl e \<Rightarrow> ?B x
           | Inr ts \<Rightarrow> (?B x)\<lparr>makeName := ?name k, vehicleTypes := Some ts\<rparr>) = x"
    proof (cases "readVehicleTypesFromAPI src k")
      case (Inr ts)
      have "(?B x)\<lparr>makeName := ?name k, vehicleTypes := Some ts\<rparr>
          = x\<lparr>makeName := ?name k, vehicleTypes := Some ts\<rparr>"
        by (subst frame) simp
      also have "\<dots> = x" using nm ty Inr by simp
      finally show ?thesis using Inr by simp
    next
      case (Inl e)
      obtain u where u: "arrayToMap ?toSave makeId k = Some u" "makeName u = ?name k"
        using arrayToMap_makesToSave_entry [OF True, of ?M] by auto
      have name: "makeName (?B x) = makeName x"
        using writes_name [of ?toSave x u] u nm kx by simp
      have M: "?M k = Some (last (x # xs))" using first by (simp add: arrayToMap_last)
      have uni: "\<forall>u \<in> set ?toSave. makeId u = makeId x \<longrightarrow>
          vehicleTypes u = (if has_types (Some (last (x # xs))) then None else Some (Types []))"
        using makesToSave_types [OF shells, of _ ?M] M kx by auto
      have kin: "makeId x \<in> makeId ` set ?toSave"
        using True kx ids_makesToSave [of ?M ms] by (metis set_map)
      have "vehicleTypes (?B x)
          = (case (if has_types (Some (last (x # xs))) then None else Some (Types [])) of
               None \<Rightarrow> vehicleTypes x | Some t \<Rightarrow> Some t)"
        using writes_types [OF uni] kin by simp
      then have types: "vehicleTypes (?B x) = vehicleTypes x"
        using ty Inl by (cases "has_types (Some (last (x # xs)))") auto
      have "?B x = x" by (subst frame) (simp add: name types)
      then show ?thesis using Inl by simp
    qed
    with after first show ?thesis by simp
  qed
qed

text \<open>What the deletion step of \<open>_saveMakes\<close> does when the read of the snapshot and
  the deletions succeed: it removes exactly the records whose \<open>makeId\<close> is absent from
  the remote list and is not the name of a property that the map of the remote makes
  inherits, and keeps the others in place; after the call, a \<open>makeId\<close> of the snapshot
  is in the store if and only if it is in the remote list or is such a name.\<close>

lemma deletion_exact:
  assumes "\<not> find_fails faults" and "\<forall>k. \<not> deleteOne_fails faults k"
    and "saveMakes faults (Some remoteMakes) coll = Inr sv"
  shows "delete_old faults (arrayToMap remoteMakes makeId) (find_coll faults coll) coll
           = [d \<leftarrow> coll. makeId d \<in> makeId ` set remoteMakes
                          \<or> inherited (arrayToMap remoteMakes makeId) (makeId d)]
         \<and> (\<forall>k \<in> makeId ` set coll.
               (k \<in> makeId ` set (saved_db sv))
                 = (k \<in> makeId ` set remoteMakes \<or> inherited (arrayToMap remoteMakes makeId) k))"
proof -
  let ?R = "arrayToMap remoteMakes makeId"
  let ?kept = "[d \<leftarrow> coll. makeId d \<in> makeId ` set remoteMakes \<or> inherited ?R (makeId d)]"
  have "delete_old faults ?R (find_coll faults coll) coll = [d \<leftarrow> coll. found ?R (makeId d)]"
    using assms(1,2) by (simp add: find_coll_def delete_old_all)
  then have del: "delete_old faults ?R (find_coll faults coll) coll = ?kept"
    by (simp only: found_arrayToMap)
  obtain documents where db: "saved_db sv = bulkWrite documents ?kept"
    and docs: "set documents \<subseteq> set (saved_makes sv)"
    and mk: "saved_makes sv = makesToSave (arrayToMap (find_coll faults coll) makeId) remoteMakes"
    using saveMakes_db [OF assms(3)] del
    by (cases "bulkWrite_stops faults") (auto dest: in_set_takeD)
  have "makeId ` set (saved_makes sv) = makeId ` set remoteMakes"
    using ids_makesToSave [of "arrayToMap (find_coll faults coll) makeId" remoteMakes] mk
    by (metis set_map)
  then have sub: "makeId ` set documents \<subseteq> makeId ` set remoteMakes" using docs by blast
  have ids: "makeId ` set (saved_db sv) = makeId ` set ?kept \<union> makeId ` set documents"
    using ids_bulkWrite [of documents ?kept] db by simp
  have "\<forall>k \<in> makeId ` set coll.
          (k \<in> makeId ` set (saved_db sv))
            = (k \<in> makeId ` set remoteMakes \<or> inherited ?R k)"
  proof
    fix k assume "k \<in> makeId ` set coll"
    then have "(k \<in> makeId ` set ?kept) = (k \<in> makeId ` set remoteMakes \<or> inherited ?R k)"
      by auto
    with ids sub show "(k \<in> makeId ` set (saved_db sv))
        = (k \<in> makeId ` set remoteMakes \<or> inherited ?R k)"
      by blast
  qed
  with del show ?thesis by simp
qed

text \<open>Once the operations that each run left pending have ended, a second run against
  the same source leaves the store as the first run left it, whatever the orders of
  the two shuffles.\<close>

lemma run_settled_idempotent:
  "run_settled src no_faults
     (startLoading src no_faults rnd' (run_settled src no_faults (startLoading src no_faults rnd coll)))
     = run_settled src no_faults (startLoading src no_faults rnd coll)"
proof (cases "loadAllMakes src")
  case (Inl e)
  then show ?thesis by (simp add: run_settled_startLoading)
next
  case (Inr allMakes)
  show ?thesis
  proof (cases allMakes)
    case None
    then show ?thesis using Inr by (simp add: run_settled_startLoading saveMakes_def)
  next
    case (Some ms)
    then have load: "loadAllMakes src = Inr (Some ms)" using Inr by simp
    show ?thesis
      using ids_run_settled [OF load] stored_run_settled [OF load]
      by (intro rerun_unchanged [OF load]) simp_all
  qed
qed

section \<open>Evaluation\<close>

text \<open>The defining equations that evaluate a run on concrete data.\<close>

lemmas eval_defs = startLoading_def loadAllMakes_def extractMakeObjects_def new_VehicleMake_def
  or_default_def saveMakes_def find_coll_def arrayToMap_def makesToSave_def has_types_def no_types_def
  insertOrUpdateMany_def upsert_def set_fields_def new_oid_def deleteOne_def
  loadAndSaveVehicleTypes_def shuffle_def floor_random_def round53_def settle_def CONCURRENT_REQUESTS_def
  SLEEP_SECONDS_def TEST_REQUESTS_def readAndSave_def readVehicleTypesFromAPI_def
  extractVehicleTypeObjects_def new_VehicleType_def saveVehicleTypes_def insertOrUpdate_def
  no_faults_def example_remote_def example_makes_def example_store_def Let_def
  six_makes_def six_remote_def
  found_def inherited_def truthy_property_def Object_prototype_def settled_db_def run_settled_def

lemma shuffle_six: "shuffle (\<lambda>_. 0) [a, b, c, d, e, f] = [b, c, d, e, f, a]"
  by (simp add: shuffle_def floor_random_def round53_def Let_def)

section \<open>Properties of the transformer\<close>

text \<open>
  C3 (edge-case extraction policy). A document that reports count 0 yields the empty
  sequence, whatever stands at the type list; count 1 with a single nested record,
  not wrapped in a list, yields the one-element sequence of that record; a count
  greater than 1 with a list yields the image of the list, element by element in
  source order.
\<close>

theorem extractVehicleTypeObjects_policy:
  "extractVehicleTypeObjects \<lparr>Count = Some 0, VehicleTypesForMakeIds = node\<rparr> = Inr (Types [])
   \<and> extractVehicleTypeObjects \<lparr>Count = Some 1, VehicleTypesForMakeIds = Single t\<rparr>
       = Inr (Types [new_VehicleType (VehicleTypeId t) (VehicleTypeName t)])
   \<and> (1 < n \<longrightarrow>
        extractVehicleTypeObjects \<lparr>Count = Some n, VehicleTypesForMakeIds = Many ts\<rparr>
          = Inr (Types (map (\<lambda>t. new_VehicleType (VehicleTypeId t) (VehicleTypeName t)) ts)))"
  by (simp add: extractVehicleTypeObjects_def)

theorem extractVehicleTypeObjects_policy_witness:
  "(1::int) < 3
   \<and> extractVehicleTypeObjects
        \<lparr>Count = Some 3,
         VehicleTypesForMakeIds = Many
           [\<lparr>VehicleTypeId = Some ''2'', VehicleTypeName = Some ''Passenger Car''\<rparr>,
            \<lparr>VehicleTypeId = Some ''3'', VehicleTypeName = Some ''Truck''\<rparr>,
            \<lparr>VehicleTypeId = None, VehicleTypeName = Some ''Bus''\<rparr>]\<rparr>
       = Inr (Types [\<lparr>typeId = ''2'', typeName = ''Passenger Car''\<rparr>,
                     \<lparr>typeId = ''3'', typeName = ''Truck''\<rparr>,
                     \<lparr>typeId = [], typeName = ''Bus''\<rparr>])"
  using extractVehicleTypeObjects_policy
    [of Absent "\<lparr>VehicleTypeId = None, VehicleTypeName = None\<rparr>" 3
        "[\<lparr>VehicleTypeId = Some ''2'', VehicleTypeName = Some ''Passenger Car''\<rparr>,
          \<lparr>VehicleTypeId = Some ''3'', VehicleTypeName = Some ''Truck''\<rparr>,
          \<lparr>VehicleTypeId = None, VehicleTypeName = Some ''Bus''\<rparr>]"]
  by (simp add: new_VehicleType_def or_default_def)

section \<open>Properties of the read interface\<close>

text \<open>
  C9 (identifier stripping). Every record that \<open>getAllMakes\<close> returns has no \<open>_id\<close>;
  when the read succeeds, the records returned are those of the snapshot, one for
  one and in order, with \<open>makeId\<close>, \<open>makeName\<close> and \<open>vehicleTypes\<close> unchanged. The REST
  and the GraphQL endpoint return what \<open>getAllMakes\<close> returns.
\<close>

theorem getAllMakes_strips_id:
  "(\<forall>r \<in> set (getAllMakes faults coll). oid r = None)
   \<and> (\<not> find_fails faults \<longrightarrow>
        list_all2 (\<lambda>r d. makeId r = makeId d \<and> makeName r = makeName d
                        \<and> vehicleTypes r = vehicleTypes d)
          (getAllMakes faults coll) coll)"
  by (simp add: getAllMakes_def find_coll_def list_all2_map1 list_all2_same)

theorem getAllMakes_strips_id_witness:
  "\<not> find_fails no_faults
   \<and> getAllMakes no_faults
        [\<lparr>makeId = ''440'', makeName = ''ASTON MARTIN'',
          vehicleTypes = Some (Types [\<lparr>typeId = ''2'', typeName = ''Passenger Car''\<rparr>]),
          oid = Some 7\<rparr>]
       = [\<lparr>makeId = ''440'', makeName = ''ASTON MARTIN'',
           vehicleTypes = Some (Types [\<lparr>typeId = ''2'', typeName = ''Passenger Car''\<rparr>]),
           oid = None\<rparr>]"
  using getAllMakes_strips_id [of no_faults
        "[\<lparr>makeId = ''440'', makeName = ''ASTON MARTIN'',
          vehicleTypes = Some (Types [\<lparr>typeId = ''2'', typeName = ''Passenger Car''\<rparr>]),
          oid = Some 7\<rparr>]"]
  by (simp add: getAllMakes_def find_coll_def no_faults_def)

section \<open>Properties of the helpers\<close>

text \<open>
  C10 (the shuffle is a permutation). For every array and every outcome of the random
  draws, the array that \<open>shuffle\<close> returns has the elements of its argument with the
  same multiplicities. Hence the type loader starts, for every list of makes, exactly
  one operation for each make of the list.
\<close>

theorem shuffle_permutation:
  "mset (shuffle rnd array) = mset array
   \<and> mset (started (loaded_trace (loadAndSaveVehicleTypes src faults rnd allMakes coll)))
       = mset (map makeId allMakes)"
proof -
  have "mset (map makeId (shuffle rnd allMakes)) = mset (map makeId allMakes)"
    using mset_shuffle [of rnd allMakes] by (metis mset_map)
  then show ?thesis by (simp add: mset_shuffle started_loadAndSaveVehicleTypes)
qed

section \<open>Properties of the type loader\<close>

text \<open>
  C4 (concurrency cap). The specification bounds the operations in flight at once
  by 5. The loop waits only when the number of pending operations exceeds
  \<open>CONCURRENT_REQUESTS\<close>, that is, once 6 have been started: on a list of six makes the
  loop starts all six before it waits, and then sleeps for
  \<open>setTimeout(r, SLEEP_SECONDS)\<close>, one millisecond.
\<close>

theorem six_operations_in_flight:
  "loaded_trace (loadAndSaveVehicleTypes src faults (\<lambda>_. 0)
      [new_VehicleMake (Some ''1'') (Some ''A''), new_VehicleMake (Some ''2'') (Some ''B''),
       new_VehicleMake (Some ''3'') (Some ''C''), new_VehicleMake (Some ''4'') (Some ''D''),
       new_VehicleMake (Some ''5'') (Some ''E''), new_VehicleMake (Some ''6'') (Some ''F'')] coll)
     = [Start ''2'', Start ''3'', Start ''4'', Start ''5'', Start ''6'', Start ''1'',
        AwaitAll, Sleep 1]
   \<and> peak_in_flight 0 (loaded_trace (loadAndSaveVehicleTypes src faults (\<lambda>_. 0)
      [new_VehicleMake (Some ''1'') (Some ''A''), new_VehicleMake (Some ''2'') (Some ''B''),
       new_VehicleMake (Some ''3'') (Some ''C''), new_VehicleMake (Some ''4'') (Some ''D''),
       new_VehicleMake (Some ''5'') (Some ''E''), new_VehicleMake (Some ''6'') (Some ''F'')] coll))
     = 6"
  by (simp add: loadAndSaveVehicleTypes_def Let_def shuffle_six settle_def
      CONCURRENT_REQUESTS_def SLEEP_SECONDS_def TEST_REQUESTS_def new_VehicleMake_def or_default_def)

section \<open>Properties of the store\<close>

text \<open>
  C8 (uniqueness of \<open>makeId\<close>). A snapshot in which no two records share a \<open>makeId\<close>
  is left so by every sync operation, whichever store operations fail: by the shell
  persistence \<open>_saveMakes\<close>, by the per-make persistence \<open>_saveVehicleTypes\<close>, and by a whole
  run of \<open>startLoading\<close>, both when the run returns and when the operations it left
  pending have ended. The empty store, from which the service starts, is such a
  snapshot.
\<close>

theorem makeId_unique:
  "distinct (map makeId coll) \<Longrightarrow>
     (\<forall>sv. saveMakes faults remoteMakes coll = Inr sv \<longrightarrow> distinct (map makeId (saved_db sv)))
   \<and> distinct (map makeId (saveVehicleTypes faults mk coll))
   \<and> distinct (map makeId (run_db (startLoading src faults rnd coll)))
   \<and> distinct (map makeId (run_settled src faults (startLoading src faults rnd coll)))"
  by (simp add: distinct_saveMakes distinct_saveVehicleTypes distinct_startLoading
      distinct_run_settled)

theorem makeId_unique_witness:
  "distinct (map makeId example_store)
   \<and> map makeId (run_db (startLoading example_remote no_faults (\<lambda>_. 0) example_store))
       = [''A'', ''B'', ''C'']
   \<and> distinct (map makeId (run_db (startLoading example_remote no_faults (\<lambda>_. 0) example_store)))
   \<and> map makeId (run_settled example_remote no_faults
         (startLoading example_remote no_faults (\<lambda>_. 0) example_store))
       = [''A'', ''B'', ''C'']
   \<and> distinct (map makeId (run_settled example_remote no_faults
         (startLoading example_remote no_faults (\<lambda>_. 0) example_store)))"
proof -
  have d: "distinct (map makeId example_store)" by (simp add: example_store_def)
  have e: "map makeId (run_db (startLoading example_remote no_faults (\<lambda>_. 0) example_store))
       = [''A'', ''B'', ''C'']"
    by (simp add: eval_defs)
  have f: "map makeId (run_settled example_remote no_faults
         (startLoading example_remote no_faults (\<lambda>_. 0) example_store))
       = [''A'', ''B'', ''C'']"
    by (simp add: eval_defs)
  from d e f makeId_unique [OF d, of no_faults None "new_VehicleMake (Some ''B'') None"
      example_remote "\<lambda>_. 0"]
  show ?thesis by blast
qed

section \<open>Properties of the reconciler\<close>

text \<open>
  C1 (non-regression merge rule). Let the read of the snapshot succeed, let the stored
  record that \<open>_saveMakes\<close> finds for the \<open>makeId\<close> of a remote record hold a non-empty
  \<open>vehicleTypes\<close>, and let the remote records of that \<open>makeId\<close> hold the empty array (one
  record when the fetched list is keyed by \<open>makeId\<close>; every record is such a shell when
  the list comes from \<open>_loadAllMakes\<close>). Then every write of \<open>_saveMakes\<close> for that
  \<open>makeId\<close> omits \<open>vehicleTypes\<close>, and the stored records of that \<open>makeId\<close> keep their
  \<open>vehicleTypes\<close> (and their \<open>_id\<close>), whichever deletion or write fails.
\<close>

theorem non_regression:
  assumes find: "\<not> find_fails faults"
    and mk: "mk \<in> set remoteMakes"
    and stored: "arrayToMap coll makeId (makeId mk) = Some d"
    and types: "vehicleTypes d = Some (Types ts)" "ts \<noteq> []"
    and empty: "\<forall>m \<in> set remoteMakes. makeId m = makeId mk \<longrightarrow> vehicleTypes m = Some (Types [])"
    and save: "saveMakes faults (Some remoteMakes) coll = Inr sv"
  shows "(\<forall>m \<in> set (saved_makes sv). makeId m = makeId mk \<longrightarrow> vehicleTypes m = None)
         \<and> map (\<lambda>d. (oid d, vehicleTypes d)) [d \<leftarrow> saved_db sv. makeId d = makeId mk]
             = map (\<lambda>d. (oid d, vehicleTypes d)) [d \<leftarrow> coll. makeId d = makeId mk]"
proof -
  let ?k = "makeId mk"
  let ?rm = "arrayToMap remoteMakes makeId"
  let ?c1 = "delete_old faults ?rm (find_coll faults coll) coll"
  have dbmap: "has_types (arrayToMap (find_coll faults coll) makeId ?k)"
    using find stored types by (simp add: find_coll_def has_types_def)
  have sm: "saved_makes sv = makesToSave (arrayToMap (find_coll faults coll) makeId) remoteMakes"
    using saveMakes_db [OF save] by simp
  have omitted: "\<forall>m \<in> set (saved_makes sv). makeId m = ?k \<longrightarrow> vehicleTypes m = None"
    using dbmap empty by (auto simp: sm makesToSave_def no_types_def)
  obtain documents where db: "saved_db sv = bulkWrite documents ?c1"
    and docs: "set documents \<subseteq> set (saved_makes sv)"
    using saveMakes_db [OF save]
    by (cases "bulkWrite_stops faults") (auto dest: in_set_takeD)
  have "found ?rm ?k" using mk by (simp add: found_remote)
  then have kept: "[x \<leftarrow> ?c1. makeId x = ?k] = [x \<leftarrow> coll. makeId x = ?k]"
    by (rule filter_delete_old_kept)
  have "d \<in> set coll \<and> makeId d = ?k" using arrayToMap_Some [OF stored] .
  then have "d \<in> set [x \<leftarrow> ?c1. makeId x = ?k]" by (simp add: kept)
  then have "d \<in> set ?c1" and "makeId d = ?k" by simp_all
  then have in1: "?k \<in> set (map makeId ?c1)" by (metis image_eqI set_map)
  have "\<forall>x \<in> set documents. makeId x = ?k \<longrightarrow> vehicleTypes x = None"
    using omitted docs by blast
  from stored_bulkWrite [OF in1 this] kept db omitted show ?thesis by simp
qed
theorem non_regression_witness:
  "\<not> find_fails no_faults
   \<and> new_VehicleMake (Some ''A'') (Some ''Make A'') \<in> set example_makes
   \<and> arrayToMap example_store makeId ''A''
       = Some \<lparr>makeId = ''A'', makeName = ''Make A'',
               vehicleTypes = Some (Types [\<lparr>typeId = ''T1'', typeName = ''Car''\<rparr>]),
               oid = Some 1\<rparr>
   \<and> (case saveMakes no_faults (Some example_makes) example_store of
         Inl e \<Rightarrow> False
       | Inr sv \<Rightarrow>
           map vehicleTypes (saved_makes sv) = [None, Some (Types []), Some (Types [])]
           \<and> map (\<lambda>d. (oid d, vehicleTypes d)) [d \<leftarrow> saved_db sv. makeId d = ''A'']
               = [(Some 1, Some (Types [\<lparr>typeId = ''T1'', typeName = ''Car''\<rparr>]))])"
proof -
  let ?mk = "new_VehicleMake (Some ''A'') (Some ''Make A'')"
  let ?d = "\<lparr>makeId = ''A'', makeName = ''Make A'',
               vehicleTypes = Some (Types [\<lparr>typeId = ''T1'', typeName = ''Car''\<rparr>]),
               oid = Some 1\<rparr>"
  have f: "\<not> find_fails no_faults" by (simp add: no_faults_def)
  have mk: "?mk \<in> set example_makes" by (simp add: example_makes_def)
  have k: "makeId ?mk = ''A''" by (simp add: new_VehicleMake_def or_default_def)
  have st: "arrayToMap example_store makeId (makeId ?mk) = Some ?d"
    by (simp add: k) (simp add: arrayToMap_def example_store_def)
  have ty: "vehicleTypes ?d = Some (Types [\<lparr>typeId = ''T1'', typeName = ''Car''\<rparr>])"
    and ne: "[\<lparr>typeId = ''T1'', typeName = ''Car''\<rparr>] \<noteq> []" by simp_all
  have em: "\<forall>m \<in> set example_makes. makeId m = makeId ?mk \<longrightarrow> vehicleTypes m = Some (Types [])"
    by (simp add: example_makes_def new_VehicleMake_def)
  obtain sv where s: "saveMakes no_faults (Some example_makes) example_store = Inr sv"
    by (simp add: eval_defs)
  have sm: "map vehicleTypes (saved_makes sv) = [None, Some (Types []), Some (Types [])]"
    using s by (auto simp: eval_defs)
  note c = non_regression [OF f mk st ty ne em s]
  have "map (\<lambda>d. (oid d, vehicleTypes d)) [d \<leftarrow> saved_db sv. makeId d = ''A'']
               = [(Some 1, Some (Types [\<lparr>typeId = ''T1'', typeName = ''Car''\<rparr>]))]"
    using c by (simp add: k) (simp add: example_store_def)
  with f mk st sm s show ?thesis by (simp add: k)
qed

text \<open>
  C2 (deletion correctness). The specification has \<open>_saveMakes\<close> delete every \<open>makeId\<close> of
  the snapshot that the remote list lacks, and the code says so of its deletion step
  (``delete old makes which are removed in the new version''). The step decides by the
  condition \<open>!remoteMakesMap?.[makeId]\<close> on an object literal, which also finds what
  the object inherits. In the example below the remote list holds the make 1 only and
  no store operation fails. A stored make 7 is deleted; a stored make with the \<open>makeId\<close>
  \<open>constructor\<close>, absent from the remote list as well, is in the store after the call.
  Apart from the names of inherited properties, the step deletes exactly the records
  that the remote list lacks (\<open>deletion_exact\<close>).
\<close>

theorem stale_make_kept:
  "''7'' \<notin> makeId ` set [new_VehicleMake (Some ''1'') (Some ''Make 1'')]
   \<and> map_sum id (map makeId \<circ> saved_db)
         (saveMakes no_faults (Some [new_VehicleMake (Some ''1'') (Some ''Make 1'')])
            [\<lparr>makeId = ''7'', makeName = ''Make X'', vehicleTypes = Some (Types []),
              oid = Some 1\<rparr>])
       = Inr [''1'']
   \<and> ''constructor'' \<notin> makeId ` set [new_VehicleMake (Some ''1'') (Some ''Make 1'')]
   \<and> map_sum id (map makeId \<circ> saved_db)
         (saveMakes no_faults (Some [new_VehicleMake (Some ''1'') (Some ''Make 1'')])
            [\<lparr>makeId = ''constructor'', makeName = ''Make X'', vehicleTypes = Some (Types []),
              oid = Some 1\<rparr>])
       = Inr [''constructor'', ''1'']"
  by (simp add: eval_defs)

section \<open>Failure of a single make\<close>




section \<open>Failure of the first two steps\<close>

text \<open>
  C6 (fatal errors). The specification has an error of the fetch of the makes (step 1)
  or of the shell persistence (step 2) abort the run, with no type loading and the
  store untouched. For a persistence error this is not what the code does: the facade
  catches the error of \<open>bulkWrite\<close> and returns the empty array, \<open>_saveMakes\<close> returns, and
  the run goes on. In the example below \<open>bulkWrite\<close> fails at its first operation: the
  run returns a value and starts an operation for each of the three makes; when it
  returns, D is deleted from the store, and once the three operations have ended B
  has its type and C is inserted.
\<close>

theorem persistence_failure_counterexample:
  "bulkWrite_stops (no_faults\<lparr>bulkWrite_stops := Some 0\<rparr>) = Some 0
   \<and> map_sum id saved_result
         (saveMakes (no_faults\<lparr>bulkWrite_stops := Some 0\<rparr>) (Some example_makes) example_store)
       = Inr []
   \<and> \<not> isl (run_result (startLoading example_remote
         (no_faults\<lparr>bulkWrite_stops := Some 0\<rparr>) (\<lambda>_. 0) example_store))
   \<and> run_trace (startLoading example_remote
         (no_faults\<lparr>bulkWrite_stops := Some 0\<rparr>) (\<lambda>_. 0) example_store)
       = [Start ''B'', Start ''C'', Start ''A'']
   \<and> run_db (startLoading example_remote
         (no_faults\<lparr>bulkWrite_stops := Some 0\<rparr>) (\<lambda>_. 0) example_store)
       = [\<lparr>makeId = ''A'', makeName = ''Make A'',
           vehicleTypes = Some (Types [\<lparr>typeId = ''T1'', typeName = ''Car''\<rparr>]), oid = Some 1\<rparr>,
          \<lparr>makeId = ''B'', makeName = ''Make B'', vehicleTypes = Some (Types []), oid = Some 2\<rparr>]
   \<and> run_db (startLoading example_remote
         (no_faults\<lparr>bulkWrite_stops := Some 0\<rparr>) (\<lambda>_. 0) example_store)
       \<noteq> example_store
   \<and> run_settled example_remote (no_faults\<lparr>bulkWrite_stops := Some 0\<rparr>)
         (startLoading example_remote
            (no_faults\<lparr>bulkWrite_stops := Some 0\<rparr>) (\<lambda>_. 0) example_store)
       = [\<lparr>makeId = ''A'', makeName = ''Make A'',
           vehicleTypes = Some (Types [\<lparr>typeId = ''T1'', typeName = ''Car''\<rparr>]), oid = Some 1\<rparr>,
          \<lparr>makeId = ''B'', makeName = ''Make B'',
           vehicleTypes = Some (Types [\<lparr>typeId = ''T3'', typeName = ''Truck''\<rparr>]), oid = Some 2\<rparr>,
          \<lparr>makeId = ''C'', makeName = ''Make C'',
           vehicleTypes = Some (Types [\<lparr>typeId = ''T4'', typeName = ''Bus''\<rparr>,
                                       \<lparr>typeId = ''T5'', typeName = ''Trailer''\<rparr>]),
           oid = Some 3\<rparr>]"
  by (simp add: eval_defs)

text \<open>
  C6 as amended. An error of the fetch of the makes or of its extraction (step 1) ends
  the run with that error: no operation of the type loader is started and the store
  is the prior snapshot. So does a document without a list of makes, on which
  \<open>_saveMakes\<close> raises before any write. When step 1 yields a list of makes, the run does
  not abort, whichever store operation fails: the facade catches the error, and one
  type operation is started for each make.
\<close>

theorem makes_fetch_failure_aborts:
  "(loadAllMakes src = Inl e \<longrightarrow>
      startLoading src faults rnd coll = \<lparr>run_result = Inl e, run_db = coll, run_pending = [], run_trace = []\<rparr>)
   \<and> (loadAllMakes src = Inr None \<longrightarrow>
      startLoading src faults rnd coll
        = \<lparr>run_result = Inl TypeError, run_db = coll, run_pending = [], run_trace = []\<rparr>)
   \<and> (loadAllMakes src = Inr (Some allMakes) \<longrightarrow>
      \<not> isl (run_result (startLoading src faults rnd coll))
      \<and> mset (started (run_trace (startLoading src faults rnd coll))) = mset (map makeId allMakes))"
proof (intro conjI impI)
  assume "loadAllMakes src = Inl e"
  then show "startLoading src faults rnd coll = \<lparr>run_result = Inl e, run_db = coll, run_pending = [], run_trace = []\<rparr>"
    by (simp add: startLoading_def)
next
  assume "loadAllMakes src = Inr None"
  then show "startLoading src faults rnd coll
        = \<lparr>run_result = Inl TypeError, run_db = coll, run_pending = [], run_trace = []\<rparr>"
    by (simp add: startLoading_def saveMakes_def)
next
  assume l: "loadAllMakes src = Inr (Some allMakes)"
  obtain sv where s: "saveMakes faults (Some allMakes) coll = Inr sv"
    using saveMakes_returns by blast
  then show "\<not> isl (run_result (startLoading src faults rnd coll))"
    using l by (simp add: startLoading_def Let_def)
  have "map makeId (saved_makes sv) = map makeId allMakes"
    using saveMakes_db [OF s] by (simp add: ids_makesToSave)
  moreover have "mset (map makeId (shuffle rnd (saved_makes sv))) = mset (map makeId (saved_makes sv))"
    using mset_shuffle [of rnd "saved_makes sv"] by (metis mset_map)
  ultimately show "mset (started (run_trace (startLoading src faults rnd coll)))
      = mset (map makeId allMakes)"
    using l s by (simp add: startLoading_def Let_def started_loadAndSaveVehicleTypes)
qed

theorem makes_fetch_failure_aborts_witness:
  "loadAllMakes \<lparr>makes_response = Inl NetworkError, types_responses = (\<lambda>k. Inl NetworkError)\<rparr>
     = Inl NetworkError
   \<and> startLoading \<lparr>makes_response = Inl NetworkError, types_responses = (\<lambda>k. Inl NetworkError)\<rparr>
         no_faults (\<lambda>_. 0) example_store
       = \<lparr>run_result = Inl NetworkError, run_db = example_store, run_pending = [], run_trace = []\<rparr>
   \<and> loadAllMakes \<lparr>makes_response = Inr Absent, types_responses = (\<lambda>k. Inl NetworkError)\<rparr>
       = Inr None
   \<and> startLoading \<lparr>makes_response = Inr Absent, types_responses = (\<lambda>k. Inl NetworkError)\<rparr>
         no_faults (\<lambda>_. 0) example_store
       = \<lparr>run_result = Inl TypeError, run_db = example_store, run_pending = [], run_trace = []\<rparr>
   \<and> loadAllMakes example_remote = Inr (Some example_makes)
   \<and> \<not> isl (run_result (startLoading example_remote
         (no_faults\<lparr>bulkWrite_stops := Some 0\<rparr>) (\<lambda>_. 0) example_store))
   \<and> mset (started (run_trace (startLoading example_remote
         (no_faults\<lparr>bulkWrite_stops := Some 0\<rparr>) (\<lambda>_. 0) example_store)))
       = mset [''A'', ''B'', ''C'']"
proof -
  let ?net = "\<lparr>makes_response = Inl NetworkError, types_responses = (\<lambda>k. Inl NetworkError)\<rparr>"
  let ?abs = "\<lparr>makes_response = Inr Absent, types_responses = (\<lambda>k. Inl NetworkError)\<rparr>"
  let ?f = "no_faults\<lparr>bulkWrite_stops := Some 0\<rparr>"
  have 1: "loadAllMakes ?net = Inl NetworkError" by (simp add: loadAllMakes_def)
  have 2: "loadAllMakes ?abs = Inr None" by (simp add: loadAllMakes_def extractMakeObjects_def)
  have 3: "loadAllMakes example_remote = Inr (Some example_makes)"
    by (simp add: loadAllMakes_def extractMakeObjects_def example_remote_def example_makes_def)
  have ids: "map makeId example_makes = [''A'', ''B'', ''C'']"
    by (simp add: example_makes_def new_VehicleMake_def or_default_def)
  from makes_fetch_failure_aborts [of ?net NetworkError no_faults "\<lambda>_. 0" example_store] 1
  have a: "startLoading ?net no_faults (\<lambda>_. 0) example_store
       = \<lparr>run_result = Inl NetworkError, run_db = example_store, run_pending = [], run_trace = []\<rparr>" by blast
  from makes_fetch_failure_aborts [of ?abs _ no_faults "\<lambda>_. 0" example_store] 2
  have b: "startLoading ?abs no_faults (\<lambda>_. 0) example_store
       = \<lparr>run_result = Inl TypeError, run_db = example_store, run_pending = [], run_trace = []\<rparr>" by blast
  from makes_fetch_failure_aborts [of example_remote _ ?f "\<lambda>_. 0" example_store example_makes] 3
  have c: "\<not> isl (run_result (startLoading example_remote ?f (\<lambda>_. 0) example_store))
      \<and> mset (started (run_trace (startLoading example_remote ?f (\<lambda>_. 0) example_store)))
          = mset (map makeId example_makes)" by blast
  from 1 2 3 a b c show ?thesis by (simp only: ids) simp
qed

section \<open>Properties of a whole run\<close>

text \<open>
  C7 (idempotence). The specification has a second run against an unchanged source
  leave the snapshot that the first run left. \<open>startLoading\<close> returns while the last group
  of type operations is pending, so the snapshot at its return lacks their writes. On
  the example, with no failing store operation: when the first run returns, B and C
  are stored without types and three operations are pending; these end and store the
  types of B and C; the second run, started on that store, changes nothing, and the
  snapshot at its return differs from the one at the return of the first. Once the
  pending operations of both runs have ended the snapshots agree, for every store and
  source (\<open>run_settled_idempotent\<close>).
\<close>

theorem second_run_differs_at_return:
  "run_db example_run = example_shells
   \<and> run_pending example_run = [''B'', ''C'', ''A'']
   \<and> run_settled example_remote no_faults example_run = example_typed
   \<and> run_db (startLoading example_remote no_faults (\<lambda>_. 0)
         (run_settled example_remote no_faults example_run))
       = example_typed
   \<and> run_db (startLoading example_remote no_faults (\<lambda>_. 0)
         (run_settled example_remote no_faults example_run))
       \<noteq> run_db example_run"
proof -
  have 1: "run_db example_run = example_shells"
    and 2: "run_pending example_run = [''B'', ''C'', ''A'']"
    and 3: "run_settled example_remote no_faults example_run = example_typed"
    by (simp_all add: eval_defs)
  have 4: "run_db (startLoading example_remote no_faults (\<lambda>_. 0) example_typed) = example_typed"
    by (simp add: eval_defs)
  from 1 2 3 4 show ?thesis by simp
qed

end
